theory Spec2Isabelle
  imports Complex_Main "HOL-Library.AList" "HOL-Library.Char_ord" "HOL-Library.List_Lexorder"
begin

section \<open>Python values and the scalar projection\<close>

text \<open>
  The monitors receive values of type \<open>Any\<close>.  The projection only looks at the outermost
  shape of a value and, for a dict or a list, at the shape of its direct entries, so the
  value universe below distinguishes the shapes the code tests with \<open>isinstance\<close>
  (\<open>bool\<close> is a subclass of \<open>int\<close>, so a boolean passes the \<open>(int, float)\<close> test) and
  keeps some shapes that fail every test (\<open>None\<close>, strings, tuples).  The type \<open>'f\<close> is
  the type of the floats.
\<close>

datatype 'f pyval =
    PNone
  | PBool bool
  | PInt int
  | PFloat 'f
  | PStr string
  | PList "'f pyval list"
  | PTuple "'f pyval list"
  | PDict "(string \<times> 'f pyval) list"

datatype error = OverflowError

datatype 'f pynum = NBool bool | NInt int | NFloat 'f

text \<open>\<open>isinstance(v, (int, float))\<close>: the number a value is, if it is one.\<close>

fun as_number :: "'f pyval \<Rightarrow> 'f pynum option" where
  "as_number (PBool b) = Some (NBool b)"
| "as_number (PInt i) = Some (NInt i)"
| "as_number (PFloat x) = Some (NFloat x)"
| "as_number _ = None"

text \<open>
  \<open>float(i)\<close> raises \<open>OverflowError\<close> on an \<open>int\<close> that rounds to a magnitude above the
  largest finite double.  The integers that convert are exactly those of magnitude below
  \<open>2^1024 - 2^970\<close>.
\<close>

definition in_double_range :: "int \<Rightarrow> bool" where
  "in_double_range i \<longleftrightarrow> \<bar>i\<bar> < 2 ^ 1024 - 2 ^ 970"

subsection \<open>The projection over a float arithmetic\<close>

text \<open>
  The float operations the projection uses are builtins of Python: the conversion
  \<open>float(i)\<close> of an integer in range, \<open>sum(nums)\<close> of a list of floats, and the division
  of a float by an \<open>int\<close>.  Here they are parameters, so that what is proved of the
  projection holds for the arithmetic of the doubles, with its rounding, its infinities
  and its \<open>nan\<close>.
\<close>

record 'f arith =
  float_of_int :: "int \<Rightarrow> 'f"
  float_sum :: "'f list \<Rightarrow> 'f"
  float_div :: "'f \<Rightarrow> int \<Rightarrow> 'f"

text \<open>\<open>float(v)\<close> on a value that passed the \<open>isinstance\<close> test.\<close>

fun py_float_in :: "'f arith \<Rightarrow> 'f pynum \<Rightarrow> error + 'f" where
  "py_float_in A (NBool b) = Inr (float_of_int A (if b then 1 else 0))"
| "py_float_in A (NInt i) =
     (if in_double_range i then Inr (float_of_int A i) else Inl OverflowError)"
| "py_float_in A (NFloat x) = Inr x"

text \<open>
  \<open>[float(v) for v in vs if isinstance(v, (int, float))]\<close>, and the explicit loop of the
  comparison monitor that builds the same list: the first conversion that raises ends it.
\<close>

fun collect_nums_in :: "'f arith \<Rightarrow> 'f pyval list \<Rightarrow> error + 'f list" where
  "collect_nums_in A [] = Inr []"
| "collect_nums_in A (v # vs) =
     (case as_number v of
        None \<Rightarrow> collect_nums_in A vs
      | Some n \<Rightarrow>
          (case py_float_in A n of
             Inl e \<Rightarrow> Inl e
           | Inr x \<Rightarrow>
               (case collect_nums_in A vs of Inl e \<Rightarrow> Inl e | Inr xs \<Rightarrow> Inr (x # xs))))"

text \<open>\<open>sum(nums) / len(nums)\<close>, evaluated only when \<open>nums\<close> is not empty.\<close>

definition mean_in :: "'f arith \<Rightarrow> 'f list \<Rightarrow> 'f" where
  "mean_in A nums = float_div A (float_sum A nums) (int (length nums))"

text \<open>
  \<open>StateComparisonMonitor._scalar_projection\<close>.  A dict without numeric entries falls
  through to the list test, fails it, and reaches the final \<open>return 0.0\<close>.
\<close>

definition scalar_projection_in :: "'f arith \<Rightarrow> 'f pyval \<Rightarrow> error + 'f" where
  "scalar_projection_in A v =
     (case as_number v of
        Some n \<Rightarrow> py_float_in A n
      | None \<Rightarrow>
          (case v of
             PDict kvs \<Rightarrow>
               (case collect_nums_in A (map snd kvs) of
                  Inl e \<Rightarrow> Inl e
                | Inr nums \<Rightarrow>
                    if nums \<noteq> [] then Inr (mean_in A nums) else Inr (float_of_int A 0))
           | PList vs \<Rightarrow>
               (case collect_nums_in A vs of
                  Inl e \<Rightarrow> Inl e
                | Inr nums \<Rightarrow>
                    if nums \<noteq> [] then Inr (mean_in A nums) else Inr (float_of_int A 0))
           | _ \<Rightarrow> Inr (float_of_int A 0)))"

text \<open>\<open>StateMetricsMonitor._extract_scalar\<close>: the same tests in the same order.\<close>

definition extract_scalar_in :: "'f arith \<Rightarrow> 'f pyval \<Rightarrow> error + 'f" where
  "extract_scalar_in A v =
     (case as_number v of
        Some n \<Rightarrow> py_float_in A n
      | None \<Rightarrow>
          (case v of
             PDict kvs \<Rightarrow>
               (case collect_nums_in A (map snd kvs) of
                  Inl e \<Rightarrow> Inl e
                | Inr nums \<Rightarrow>
                    if nums \<noteq> [] then Inr (mean_in A nums) else Inr (float_of_int A 0))
           | PList vs \<Rightarrow>
               (case collect_nums_in A vs of
                  Inl e \<Rightarrow> Inl e
                | Inr nums \<Rightarrow>
                    if nums \<noteq> [] then Inr (mean_in A nums) else Inr (float_of_int A 0))
           | _ \<Rightarrow> Inr (float_of_int A 0)))"

subsection \<open>The projection of the monitors\<close>

text \<open>
  The monitors below are developed over doubles idealised as reals: a float is the real
  it denotes, the conversion of an integer rounds as \<open>float(i)\<close> does, and sums and
  quotients are exact.  The non-finite doubles and the rounding of sums and quotients are
  not part of this arithmetic; the projection over it is the projection above at the
  arithmetic \<open>ideal\<close>.

  \<open>float(i)\<close> rounds the integer to 53 significant bits, a tie going to the even
  neighbour: \<open>excess_bits\<close> is the number of bits that do not fit.
\<close>

function excess_bits :: "nat \<Rightarrow> nat" where
  "excess_bits a = (if a < 2 ^ 53 then 0 else Suc (excess_bits (a div 2)))"
  by pat_completeness auto
termination
  by (relation "measure id") auto

declare excess_bits.simps [simp del]

definition double_of_int :: "int \<Rightarrow> int" where
  "double_of_int i =
     (let a = nat \<bar>i\<bar>;
          e = excess_bits a;
          q = a div 2 ^ e;
          r = a mod 2 ^ e;
          q' = (if 2 * r < 2 ^ e \<or> (2 * r = 2 ^ e \<and> even q) then q else q + 1)
      in sgn i * int (q' * 2 ^ e))"

definition ideal :: "real arith" where
  "ideal = \<lparr>float_of_int = (\<lambda>i. of_int (double_of_int i)), float_sum = sum_list,
            float_div = (\<lambda>x n. x / of_int n)\<rparr>"

text \<open>\<open>float(v)\<close> on a value that passed the \<open>isinstance\<close> test.\<close>

fun py_float :: "real pynum \<Rightarrow> error + real" where
  "py_float (NBool b) = Inr (if b then 1 else 0)"
| "py_float (NInt i) =
     (if in_double_range i then Inr (of_int (double_of_int i)) else Inl OverflowError)"
| "py_float (NFloat x) = Inr x"

fun collect_nums :: "real pyval list \<Rightarrow> error + real list" where
  "collect_nums [] = Inr []"
| "collect_nums (v # vs) =
     (case as_number v of
        None \<Rightarrow> collect_nums vs
      | Some n \<Rightarrow>
          (case py_float n of
             Inl e \<Rightarrow> Inl e
           | Inr x \<Rightarrow> (case collect_nums vs of Inl e \<Rightarrow> Inl e | Inr xs \<Rightarrow> Inr (x # xs))))"

text \<open>\<open>sum(nums) / len(nums)\<close>, evaluated only when \<open>nums\<close> is not empty.\<close>

definition mean :: "real list \<Rightarrow> real" where
  "mean nums = sum_list nums / real (length nums)"

text \<open>
  \<open>StateComparisonMonitor._scalar_projection\<close>.  A dict without numeric entries falls
  through to the list test, fails it, and reaches the final \<open>return 0.0\<close>.
\<close>

definition scalar_projection :: "real pyval \<Rightarrow> error + real" where
  "scalar_projection v =
     (case as_number v of
        Some n \<Rightarrow> py_float n
      | None \<Rightarrow>
          (case v of
             PDict kvs \<Rightarrow>
               (case collect_nums (map snd kvs) of
                  Inl e \<Rightarrow> Inl e
                | Inr nums \<Rightarrow> if nums \<noteq> [] then Inr (mean nums) else Inr 0)
           | PList vs \<Rightarrow>
               (case collect_nums vs of
                  Inl e \<Rightarrow> Inl e
                | Inr nums \<Rightarrow> if nums \<noteq> [] then Inr (mean nums) else Inr 0)
           | _ \<Rightarrow> Inr 0))"

text \<open>\<open>StateMetricsMonitor._extract_scalar\<close>: the same tests in the same order.\<close>

definition extract_scalar :: "real pyval \<Rightarrow> error + real" where
  "extract_scalar v =
     (case as_number v of
        Some n \<Rightarrow> py_float n
      | None \<Rightarrow>
          (case v of
             PDict kvs \<Rightarrow>
               (case collect_nums (map snd kvs) of
                  Inl e \<Rightarrow> Inl e
                | Inr nums \<Rightarrow> if nums \<noteq> [] then Inr (mean nums) else Inr 0)
           | PList vs \<Rightarrow>
               (case collect_nums vs of
                  Inl e \<Rightarrow> Inl e
                | Inr nums \<Rightarrow> if nums \<noteq> [] then Inr (mean nums) else Inr 0)
           | _ \<Rightarrow> Inr 0))"


section \<open>Signals, dictionaries and slices\<close>

text \<open>
  The fields of an incoming \<open>BioSignal\<close> that \<open>set_inputs\<close> reads.  The transport types
  \<open>time\<close> as a float; \<open>str(sig.source)\<close> is the source as a string.
\<close>

record in_signal =
  in_source :: string
  in_value :: "real pyval"
  in_time :: real

text \<open>\<open>SignalMetadata(description=..., kind=...)\<close> and the emitted \<open>BioSignal\<close>.\<close>

record metadata =
  description :: string
  kind :: string

record 'p out_signal =
  sg_source :: string
  sg_name :: string
  sg_value :: 'p
  sg_time :: real
  sg_metadata :: metadata

text \<open>
  A Python dict is an association list in insertion order, its keys distinct.
  \<open>d[k] = v\<close> is \<open>AList.update k v d\<close>: an existing key keeps its place, a new one goes
  last.  \<open>d.get(k)\<close> and \<open>d[k]\<close> on a present key are \<open>map_of d k\<close>.
\<close>

text \<open>A dict comprehension or literal: the items inserted one after the other.\<close>

definition py_dict :: "('k \<times> 'v) list \<Rightarrow> ('k \<times> 'v) list" where
  "py_dict items = foldl (\<lambda>d (k, v). AList.update k v d) [] items"

text \<open>
  \<open>sorted(d.items())\<close>: the tuples compare by key first, and the keys of a dict are
  distinct, so the order is the order of the keys.
\<close>

definition sorted_items :: "(string \<times> 'v) list \<Rightarrow> (string \<times> 'v) list" where
  "sorted_items d = sort_key fst d"

text \<open>
  The slice \<open>xs[i:]\<close>.  A negative \<open>i\<close> counts from the end (and stops at the front), so
  \<open>xs[-n:]\<close> is the last \<open>n\<close> elements for \<open>n > 0\<close>; but \<open>xs[-0:]\<close> is \<open>xs[0:]\<close>, the
  whole list.
\<close>

definition py_slice_from :: "int \<Rightarrow> 'a list \<Rightarrow> 'a list" where
  "py_slice_from i xs =
     (if i < 0 then drop (length xs - nat (- i)) xs else drop (nat i) xs)"

text \<open>
  \<open>hist.setdefault(name, []).append(x)\<close> followed by
  \<open>if len(hist[name]) > max_points: hist[name] = hist[name][-max_points:]\<close>.
\<close>

definition append_point :: "string \<Rightarrow> 'a \<Rightarrow> (string \<times> 'a list) list \<Rightarrow> (string \<times> 'a list) list" where
  "append_point name x hist =
     AList.update name ((case map_of hist name of None \<Rightarrow> [] | Some xs \<Rightarrow> xs) @ [x]) hist"

definition trim_points :: "int \<Rightarrow> string \<Rightarrow> (string \<times> 'a list) list \<Rightarrow> (string \<times> 'a list) list" where
  "trim_points max_points name hist =
     (if int (length (the (map_of hist name))) > max_points
      then AList.update name (py_slice_from (- max_points) (the (map_of hist name))) hist
      else hist)"

text \<open>\<open>inputs()\<close> of both monitors, and \<open>sorted(self.inputs())\<close>.\<close>

definition inputs :: "string set" where
  "inputs = {''state_a'', ''state_b'', ''state_c'', ''state_d''}"

definition sorted_inputs :: "string list" where
  "sorted_inputs = sorted_list_of_set inputs"

text \<open>
  The loop of \<open>set_inputs\<close>, shared by both monitors: the names in order, a name without
  a signal skipped, and an exception raised while one signal is ingested leaving the
  monitor as the earlier names of the call made it.  The result pairs the exception (if
  any) with the monitor's state after the call.
\<close>

fun ingest_loop ::
  "(string \<Rightarrow> in_signal \<Rightarrow> 's \<Rightarrow> error + 's) \<Rightarrow> string list \<Rightarrow> (string \<rightharpoonup> in_signal) \<Rightarrow> 's
     \<Rightarrow> error option \<times> 's" where
  "ingest_loop ingest [] signals s = (None, s)"
| "ingest_loop ingest (name # names) signals s =
     (case signals name of
        None \<Rightarrow> ingest_loop ingest names signals s
      | Some sg \<Rightarrow>
          (case ingest name sg s of
             Inl e \<Rightarrow> (Some e, s)
           | Inr s' \<Rightarrow> ingest_loop ingest names signals s'))"

section \<open>The comparison monitor\<close>

record latest_entry =
  le_t :: real
  le_scalar :: real
  le_source :: string

record cmp_payload =
  cmp_t :: real
  latest_values :: "(string \<times> real) list"
  pairwise_deltas :: "(string \<times> real) list"
  n_streams :: nat

text \<open>
  The attributes of a \<open>StateComparisonMonitor\<close>.  \<open>_world_name\<close> is not set by the
  class; \<open>advance_to\<close> reads it with \<open>getattr\<close> and a default.
\<close>

record cmp_monitor =
  c_min_dt :: real
  c_max_points :: int
  c_world_name :: "string option"
  c_latest :: "(string \<times> latest_entry) list"
  c_series :: "(string \<times> (real \<times> real) list) list"
  c_last_t :: real
  c_outputs :: "(string \<times> cmp_payload out_signal) list"

definition cmp_init :: "int \<Rightarrow> real \<Rightarrow> cmp_monitor" where
  "cmp_init max_points min_dt =
     \<lparr>c_min_dt = min_dt, c_max_points = max_points, c_world_name = None,
      c_latest = [], c_series = [], c_last_t = 0, c_outputs = []\<rparr>"

definition cmp_reset :: "cmp_monitor \<Rightarrow> cmp_monitor" where
  "cmp_reset s = s\<lparr>c_latest := [], c_series := [], c_last_t := 0, c_outputs := []\<rparr>"

text \<open>The body of the loop of \<open>set_inputs\<close> for one name whose signal is present.\<close>

definition cmp_ingest :: "string \<Rightarrow> in_signal \<Rightarrow> cmp_monitor \<Rightarrow> error + cmp_monitor" where
  "cmp_ingest name sg s =
     (let t = in_time sg in
      case scalar_projection (in_value sg) of
        Inl e \<Rightarrow> Inl e
      | Inr scalar \<Rightarrow>
          Inr (s\<lparr>c_latest :=
                    AList.update name \<lparr>le_t = t, le_scalar = scalar, le_source = in_source sg\<rparr>
                      (c_latest s),
                 c_series :=
                    trim_points (c_max_points s) name (append_point name (t, scalar) (c_series s)),
                 c_last_t := max (c_last_t s) t\<rparr>))"

definition cmp_set_inputs :: "(string \<rightharpoonup> in_signal) \<Rightarrow> cmp_monitor \<Rightarrow> error option \<times> cmp_monitor" where
  "cmp_set_inputs signals s = ingest_loop cmp_ingest sorted_inputs signals s"

text \<open>\<open>[k for k in sorted(self._latest.keys()) if k in self.inputs()]\<close>\<close>

definition cmp_active :: "cmp_monitor \<Rightarrow> string list" where
  "cmp_active s = filter (\<lambda>k. k \<in> inputs) (sort (map fst (c_latest s)))"

definition delta_key :: "string \<Rightarrow> string \<Rightarrow> string" where
  "delta_key left right = left @ ''_minus_'' @ right"

text \<open>
  The nested loop over \<open>enumerate(active)\<close> and \<open>active[i + 1:]\<close>: at each \<open>left\<close> the
  inner loop runs over the names after it.
\<close>

fun deltas_loop ::
  "(string \<times> real) list \<Rightarrow> string list \<Rightarrow> (string \<times> real) list \<Rightarrow> (string \<times> real) list" where
  "deltas_loop lv [] deltas = deltas"
| "deltas_loop lv (left # rest) deltas =
     deltas_loop lv rest
       (foldl (\<lambda>d right.
                 AList.update (delta_key left right)
                   (the (map_of lv left) - the (map_of lv right)) d)
          deltas rest)"

definition cmp_advance_to :: "real \<Rightarrow> cmp_monitor \<Rightarrow> cmp_monitor" where
  "cmp_advance_to t s =
     (let now = max t (c_last_t s);
          active = cmp_active s;
          lv = py_dict (map (\<lambda>k. (k, le_scalar (the (map_of (c_latest s) k)))) active);
          deltas = deltas_loop lv active [];
          source_name = (case c_world_name s of Some w \<Rightarrow> w | None \<Rightarrow> ''StateComparisonMonitor'')
      in s\<lparr>c_outputs :=
             [(''comparison_state'',
               \<lparr>sg_source = source_name,
                sg_name = ''comparison_state'',
                sg_value = \<lparr>cmp_t = now, latest_values = lv, pairwise_deltas = deltas,
                            n_streams = length active\<rparr>,
                sg_time = now,
                sg_metadata = \<lparr>description = ''State comparison summary'', kind = ''state''\<rparr>\<rparr>)]\<rparr>)"

text \<open>\<open>get_outputs\<close> as a value: the entries of \<open>dict(self._outputs)\<close>.\<close>

definition cmp_get_outputs :: "cmp_monitor \<Rightarrow> (string \<times> cmp_payload out_signal) list" where
  "cmp_get_outputs s = c_outputs s"

section \<open>The metrics monitor\<close>

text \<open>The dict of \<open>_summary\<close>, keys \<open>count\<close>, \<open>mean\<close>, \<open>min\<close> and \<open>max\<close>.\<close>

record stats =
  s_count :: real
  s_mean :: real
  s_min :: real
  s_max :: real

record met_payload =
  met_t :: real
  stream_metrics :: "(string \<times> stats) list"
  stream_count :: nat

record met_monitor =
  m_min_dt :: real
  m_max_points :: int
  m_world_name :: "string option"
  m_history :: "(string \<times> real list) list"
  m_latest_t :: real
  m_outputs :: "(string \<times> met_payload out_signal) list"

definition met_init :: "int \<Rightarrow> real \<Rightarrow> met_monitor" where
  "met_init max_points min_dt =
     \<lparr>m_min_dt = min_dt, m_max_points = max_points, m_world_name = None,
      m_history = [], m_latest_t = 0, m_outputs = []\<rparr>"

definition met_reset :: "met_monitor \<Rightarrow> met_monitor" where
  "met_reset s = s\<lparr>m_history := [], m_latest_t := 0, m_outputs := []\<rparr>"

definition met_ingest :: "string \<Rightarrow> in_signal \<Rightarrow> met_monitor \<Rightarrow> error + met_monitor" where
  "met_ingest name sg s =
     (case extract_scalar (in_value sg) of
        Inl e \<Rightarrow> Inl e
      | Inr scalar \<Rightarrow>
          Inr (s\<lparr>m_history :=
                    trim_points (m_max_points s) name (append_point name scalar (m_history s)),
                 m_latest_t := max (m_latest_t s) (in_time sg)\<rparr>))"

definition met_set_inputs :: "(string \<rightharpoonup> in_signal) \<Rightarrow> met_monitor \<Rightarrow> error option \<times> met_monitor" where
  "met_set_inputs signals s = ingest_loop met_ingest sorted_inputs signals s"

text \<open>
  \<open>_summary\<close>.  \<open>min(values)\<close> and \<open>max(values)\<close> run over a list that the test
  before them found non-empty.
\<close>

definition summary :: "real list \<Rightarrow> stats" where
  "summary values =
     (case values of
        [] \<Rightarrow> \<lparr>s_count = 0, s_mean = 0, s_min = 0, s_max = 0\<rparr>
      | v # vs \<Rightarrow>
          \<lparr>s_count = real (length values),
           s_mean = sum_list values / real (length values),
           s_min = foldl min v vs,
           s_max = foldl max v vs\<rparr>)"

definition met_advance_to :: "real \<Rightarrow> met_monitor \<Rightarrow> met_monitor" where
  "met_advance_to t s =
     (let now = max t (m_latest_t s);
          per_stream = py_dict (map (\<lambda>(k, v). (k, summary v)) (sorted_items (m_history s)));
          source_name = (case m_world_name s of Some w \<Rightarrow> w | None \<Rightarrow> ''StateMetricsMonitor'')
      in s\<lparr>m_outputs :=
             [(''metrics'',
               \<lparr>sg_source = source_name,
                sg_name = ''metrics'',
                sg_value = \<lparr>met_t = now, stream_metrics = per_stream,
                            stream_count = length per_stream\<rparr>,
                sg_time = now,
                sg_metadata = \<lparr>description = ''State stream metrics summary'', kind = ''state''\<rparr>\<rparr>)]\<rparr>)"

definition met_get_outputs :: "met_monitor \<Rightarrow> (string \<times> met_payload out_signal) list" where
  "met_get_outputs s = m_outputs s"

section \<open>Visualization\<close>

text \<open>
  The display strings.  \<open>str(n)\<close> of a natural number is its decimal digits.
  \<open>int(x)\<close> truncates towards zero.  \<open>f"{x:.6f}"\<close> of a finite value is the sign, the
  integer part and six decimals of the value rounded to a multiple of \<open>10^-6\<close>, a tie
  going to the even neighbour (\<open>fmt6\<close>, on the real that the double denotes); of the
  negative zero it is \<open>-0.000000\<close>, and of a non-finite double it is \<open>inf\<close>, \<open>-inf\<close> or
  \<open>nan\<close>.
\<close>

definition digit_char :: "nat \<Rightarrow> char" where
  "digit_char d = ''0123456789'' ! d"

function dec_string :: "nat \<Rightarrow> string" where
  "dec_string n = (if n < 10 then [digit_char n] else dec_string (n div 10) @ [digit_char (n mod 10)])"
  by pat_completeness auto
termination
  by (relation "measure id") auto

declare dec_string.simps [simp del]

definition py_str_int :: "int \<Rightarrow> string" where
  "py_str_int i = (if i < 0 then ''-'' @ dec_string (nat (- i)) else dec_string (nat i))"

definition py_int :: "real \<Rightarrow> int" where
  "py_int x = (if 0 \<le> x then \<lfloor>x\<rfloor> else \<lceil>x\<rceil>)"

definition round_half_even :: "real \<Rightarrow> int" where
  "round_half_even y =
     (let f = \<lfloor>y\<rfloor>; d = y - of_int f
      in if d < 1 / 2 then f else if 1 / 2 < d then f + 1 else if even f then f else f + 1)"

definition pad6 :: "nat \<Rightarrow> string" where
  "pad6 m = map (\<lambda>k. digit_char (m div 10 ^ k mod 10)) [5, 4, 3, 2, 1, 0]"

definition fmt6 :: "real \<Rightarrow> string" where
  "fmt6 x =
     (let n = nat (round_half_even (\<bar>x\<bar> * 10 ^ 6))
      in (if x < 0 then ''-'' else []) @ dec_string (n div 10 ^ 6) @ ''.'' @ pad6 (n mod 10 ^ 6))"

datatype double_value = Finite real | NegZero | PosInf | NegInf | NaN

definition format_6f :: "double_value \<Rightarrow> string" where
  "format_6f v =
     (case v of
        Finite x \<Rightarrow> fmt6 x
      | NegZero \<Rightarrow> ''-0.000000''
      | PosInf \<Rightarrow> ''inf''
      | NegInf \<Rightarrow> ''-inf''
      | NaN \<Rightarrow> ''nan'')"

text \<open>
  The scalars of the monitors are finite (they are reals), so the cells of the tables are
  formatted as finite values.
\<close>

text \<open>
  A render block: the \<open>render\<close> tag, the \<open>data\<close> (a title and the named series of
  points, or the columns and the rows), and the description.
\<close>

datatype block_data =
    SeriesData string "(string \<times> (real \<times> real) list) list"
  | TableData "string list" "string list list"

record render_block =
  render :: string
  data :: block_data
  block_description :: string

definition cmp_visualize :: "cmp_monitor \<Rightarrow> render_block list option" where
  "cmp_visualize s =
     (if c_series s = [] then None
      else
        (let timeseries =
               \<lparr>render = ''timeseries'',
                data = SeriesData ''State Stream Comparison'' (sorted_items (c_series s)),
                block_description = ''Scalar projections for each incoming state stream.''\<rparr>;
             lvs = (case map_of (c_outputs s) ''comparison_state'' of
                      Some sg \<Rightarrow> latest_values (sg_value sg)
                    | None \<Rightarrow> []);
             rows = map (\<lambda>k. [k, format_6f (Finite (the (map_of lvs k)))]) (sort (map fst lvs));
             table =
               \<lparr>render = ''table'',
                data = TableData [''Stream'', ''Latest Scalar''] rows,
                block_description = ''Latest scalar value per state input stream.''\<rparr>
         in Some [timeseries, table]))"

text \<open>\<open>[[float(i), float(v)] for i, v in enumerate(vals)]\<close>\<close>

definition indexed_points :: "real list \<Rightarrow> (real \<times> real) list" where
  "indexed_points vals = zip (map real [0..<length vals]) vals"

definition met_row :: "string \<Rightarrow> stats \<Rightarrow> string list" where
  "met_row name m =
     [name, py_str_int (py_int (s_count m)), format_6f (Finite (s_mean m)),
      format_6f (Finite (s_min m)), format_6f (Finite (s_max m))]"

definition met_visualize :: "met_monitor \<Rightarrow> render_block list option" where
  "met_visualize s =
     (if m_history s = [] then None
      else
        (let series = map (\<lambda>(name, vals). (name, indexed_points vals)) (sorted_items (m_history s));
             metrics = (case map_of (m_outputs s) ''metrics'' of
                          Some sg \<Rightarrow> stream_metrics (sg_value sg)
                        | None \<Rightarrow> []);
             rows = map (\<lambda>name. met_row name (the (map_of metrics name))) (sort (map fst metrics))
         in Some
              [\<lparr>render = ''timeseries'',
                data = SeriesData ''State Stream Metrics (Scalar History)'' series,
                block_description = ''Scalar history per stream for quick trend checks.''\<rparr>,
               \<lparr>render = ''table'',
                data = TableData [''Stream'', ''Count'', ''Mean'', ''Min'', ''Max''] rows,
                block_description = ''Descriptive metrics for each stream.''\<rparr>]))"

section \<open>Reachable states and the log of arrivals\<close>

text \<open>
  What one call of \<open>set_inputs\<close> delivers: for each known stream with a signal, in the
  order of the loop and up to the first signal whose projection raises, the observation
  the monitor appends.  The log of a stream is the list of all observations delivered to
  it, oldest first.
\<close>

fun arrival_log ::
  "(in_signal \<Rightarrow> error + 'o) \<Rightarrow> string list \<Rightarrow> (string \<rightharpoonup> in_signal) \<Rightarrow> (string \<Rightarrow> 'o list)
     \<Rightarrow> (string \<Rightarrow> 'o list)" where
  "arrival_log obs [] signals L = L"
| "arrival_log obs (name # names) signals L =
     (case signals name of
        None \<Rightarrow> arrival_log obs names signals L
      | Some sg \<Rightarrow>
          (case obs sg of
             Inl e \<Rightarrow> L
           | Inr x \<Rightarrow> arrival_log obs names signals (L(name := L name @ [x]))))"

definition cmp_observation :: "in_signal \<Rightarrow> error + (real \<times> real)" where
  "cmp_observation sg =
     (case scalar_projection (in_value sg) of Inl e \<Rightarrow> Inl e | Inr x \<Rightarrow> Inr (in_time sg, x))"

definition met_observation :: "in_signal \<Rightarrow> error + real" where
  "met_observation sg = extract_scalar (in_value sg)"

text \<open>
  The states a host can bring a monitor to, each with the log of what arrived since the
  construction or the last reset.  The host may set the attribute \<open>_world_name\<close>.
\<close>

inductive cmp_reach :: "(string \<Rightarrow> (real \<times> real) list) \<Rightarrow> cmp_monitor \<Rightarrow> bool" where
  cmp_reach_init: "cmp_reach (\<lambda>n. []) (cmp_init max_points min_dt)"
| cmp_reach_reset: "cmp_reach L s \<Longrightarrow> cmp_reach (\<lambda>n. []) (cmp_reset s)"
| cmp_reach_set_inputs:
    "cmp_reach L s \<Longrightarrow>
       cmp_reach (arrival_log cmp_observation sorted_inputs signals L)
         (snd (cmp_set_inputs signals s))"
| cmp_reach_advance: "cmp_reach L s \<Longrightarrow> cmp_reach L (cmp_advance_to t s)"
| cmp_reach_named: "cmp_reach L s \<Longrightarrow> cmp_reach L (s\<lparr>c_world_name := Some w\<rparr>)"

inductive met_reach :: "(string \<Rightarrow> real list) \<Rightarrow> met_monitor \<Rightarrow> bool" where
  met_reach_init: "met_reach (\<lambda>n. []) (met_init max_points min_dt)"
| met_reach_reset: "met_reach L s \<Longrightarrow> met_reach (\<lambda>n. []) (met_reset s)"
| met_reach_set_inputs:
    "met_reach L s \<Longrightarrow>
       met_reach (arrival_log met_observation sorted_inputs signals L)
         (snd (met_set_inputs signals s))"
| met_reach_advance: "met_reach L s \<Longrightarrow> met_reach L (met_advance_to t s)"
| met_reach_named: "met_reach L s \<Longrightarrow> met_reach L (s\<lparr>m_world_name := Some w\<rparr>)"

text \<open>A sequence of \<open>set_inputs\<close> calls, whatever each of them raises.\<close>

definition cmp_run :: "(string \<rightharpoonup> in_signal) list \<Rightarrow> cmp_monitor \<Rightarrow> cmp_monitor" where
  "cmp_run calls s = fold (\<lambda>signals s. snd (cmp_set_inputs signals s)) calls s"

definition met_run :: "(string \<rightharpoonup> in_signal) list \<Rightarrow> met_monitor \<Rightarrow> met_monitor" where
  "met_run calls s = fold (\<lambda>signals s. snd (met_set_inputs signals s)) calls s"

text \<open>
  The window of a log that a history of capacity \<open>max_points\<close> retains: its last
  \<open>max_points\<close> entries.  (The slice \<open>[-max_points:]\<close> keeps everything at capacity 0 and
  nothing at a negative capacity.)
\<close>

definition window :: "int \<Rightarrow> 'a list \<Rightarrow> 'a list" where
  "window max_points xs =
     (if 0 < max_points then drop (length xs - nat max_points) xs
      else if max_points = 0 then xs else [])"

text \<open>The streams with data, in lexical order.\<close>

definition streams_with_data :: "(string \<Rightarrow> 'o list) \<Rightarrow> string list" where
  "streams_with_data L = filter (\<lambda>n. L n \<noteq> []) sorted_inputs"

text \<open>The pairs of a list, the first component before the second.\<close>

fun ordered_pairs :: "'a list \<Rightarrow> ('a \<times> 'a) list" where
  "ordered_pairs [] = []"
| "ordered_pairs (x # xs) = map (Pair x) xs @ ordered_pairs xs"

section \<open>The copy that \<open>get_outputs\<close> returns\<close>

text \<open>
  \<open>dict(self._outputs)\<close> allocates a new dict with the entries of the stored one.  To say
  that the two are independent, dicts live in a store: a dict is an address, the store
  maps the allocated addresses to the entries, and a caller mutates a dict through its
  address.
\<close>

type_synonym addr = nat

record 'v store =
  cells :: "addr \<rightharpoonup> (string \<times> 'v) list"
  next_addr :: addr

definition store_ok :: "'v store \<Rightarrow> bool" where
  "store_ok h \<longleftrightarrow> dom (cells h) = {a. a < next_addr h}"

definition alloc_dict :: "(string \<times> 'v) list \<Rightarrow> 'v store \<Rightarrow> addr \<times> 'v store" where
  "alloc_dict d h = (next_addr h, h\<lparr>cells := (cells h)(next_addr h \<mapsto> d), next_addr := Suc (next_addr h)\<rparr>)"

text \<open>\<open>get_outputs\<close> of a monitor whose \<open>_outputs\<close> is the dict at \<open>self_outputs\<close>.\<close>

definition get_outputs_ref :: "addr \<Rightarrow> 'v store \<Rightarrow> addr \<times> 'v store" where
  "get_outputs_ref self_outputs h = alloc_dict (the (cells h self_outputs)) h"

text \<open>What a caller can do to a dict it holds: \<open>d[k] = v\<close>, \<open>d.pop(k, None)\<close>, \<open>d.clear()\<close>.\<close>

datatype 'v dict_op = SetItem string 'v | PopItem string | Clear

fun apply_dict_op :: "'v dict_op \<Rightarrow> (string \<times> 'v) list \<Rightarrow> (string \<times> 'v) list" where
  "apply_dict_op (SetItem k v) d = AList.update k v d"
| "apply_dict_op (PopItem k) d = AList.delete k d"
| "apply_dict_op Clear d = []"

definition mutate :: "addr \<Rightarrow> 'v dict_op \<Rightarrow> 'v store \<Rightarrow> 'v store" where
  "mutate a opn h =
     (case cells h a of
        None \<Rightarrow> h
      | Some d \<Rightarrow> h\<lparr>cells := (cells h)(a \<mapsto> apply_dict_op opn d)\<rparr>)"

section \<open>The projection as the specification words it\<close>

text \<open>
  The number as a float: \<open>True\<close> is 1 and \<open>False\<close> is 0, an integer is the double
  nearest to it, a float is itself.
\<close>

fun num_value :: "real pynum \<Rightarrow> real" where
  "num_value (NBool b) = (if b then 1 else 0)"
| "num_value (NInt i) = of_int (double_of_int i)"
| "num_value (NFloat x) = x"

text \<open>The numeric entries of a collection, the others ignored.\<close>

definition numeric_entries :: "real pyval list \<Rightarrow> real list" where
  "numeric_entries vs = map num_value (List.map_filter as_number vs)"

text \<open>The arithmetic mean, and 0 when there is nothing to average.\<close>

definition mean_or_zero :: "real list \<Rightarrow> real" where
  "mean_or_zero nums = (if nums = [] then 0 else sum_list nums / real (length nums))"

fun projection_spec :: "real pyval \<Rightarrow> real" where
  "projection_spec (PBool b) = num_value (NBool b)"
| "projection_spec (PInt i) = num_value (NInt i)"
| "projection_spec (PFloat x) = num_value (NFloat x)"
| "projection_spec (PDict kvs) = mean_or_zero (numeric_entries (map snd kvs))"
| "projection_spec (PList vs) = mean_or_zero (numeric_entries vs)"
| "projection_spec _ = 0"

text \<open>
  The values on which no conversion overflows: an integer that is the value itself or a
  direct entry of the dict or list must be in the range of the doubles.
\<close>

definition convertible :: "'f pyval \<Rightarrow> bool" where
  "convertible v = (case v of PInt i \<Rightarrow> in_double_range i | _ \<Rightarrow> True)"

definition floatable :: "'f pyval \<Rightarrow> bool" where
  "floatable v =
     (case v of
        PDict kvs \<Rightarrow> list_all convertible (map snd kvs)
      | PList vs \<Rightarrow> list_all convertible vs
      | _ \<Rightarrow> convertible v)"

subsection \<open>Over a float arithmetic\<close>

text \<open>
  The same rule over any float arithmetic: a float is itself, a boolean and an integer
  are their conversions, the mean is the quotient of the sum of the converted numeric
  entries by their number, as that arithmetic computes them, and 0 is \<open>0.0\<close>.
\<close>

fun float_value :: "'f arith \<Rightarrow> 'f pynum \<Rightarrow> 'f" where
  "float_value A (NBool b) = float_of_int A (if b then 1 else 0)"
| "float_value A (NInt i) = float_of_int A i"
| "float_value A (NFloat x) = x"

definition float_entries :: "'f arith \<Rightarrow> 'f pyval list \<Rightarrow> 'f list" where
  "float_entries A vs = map (float_value A) (List.map_filter as_number vs)"

definition float_mean_or_zero :: "'f arith \<Rightarrow> 'f list \<Rightarrow> 'f" where
  "float_mean_or_zero A nums =
     (if nums = [] then float_of_int A 0
      else float_div A (float_sum A nums) (int (length nums)))"

fun projection_rule :: "'f arith \<Rightarrow> 'f pyval \<Rightarrow> 'f" where
  "projection_rule A (PBool b) = float_value A (NBool b)"
| "projection_rule A (PInt i) = float_value A (NInt i)"
| "projection_rule A (PFloat x) = float_value A (NFloat x)"
| "projection_rule A (PDict kvs) = float_mean_or_zero A (float_entries A (map snd kvs))"
| "projection_rule A (PList vs) = float_mean_or_zero A (float_entries A vs)"
| "projection_rule A _ = float_of_int A 0"

text \<open>The timestamps a call of \<open>set_inputs\<close> carries for the known streams.\<close>

definition observed_times :: "(string \<rightharpoonup> in_signal) \<Rightarrow> real list" where
  "observed_times signals = map in_time (List.map_filter signals sorted_inputs)"

section \<open>Scenarios\<close>

text \<open>The helper \<open>_sig(source, name, value, t)\<close> of the tests.\<close>

definition sig :: "string \<Rightarrow> string \<Rightarrow> real pyval \<Rightarrow> real \<Rightarrow> in_signal" where
  "sig source name v t = \<lparr>in_source = source, in_value = v, in_time = t\<rparr>"

text \<open>
  \<open>state_a = {x: 10, y: 20}\<close> and \<open>state_b = {x: 4, z: 8}\<close> ingested at time 1 by a new
  comparison monitor, which then advances to 1.
\<close>

definition cmp_scenario_calls :: "(string \<rightharpoonup> in_signal) list" where
  "cmp_scenario_calls =
     [[''state_a'' \<mapsto> sig ''a'' ''state_a'' (PDict [(''x'', PFloat 10), (''y'', PFloat 20)]) 1,
       ''state_b'' \<mapsto> sig ''b'' ''state_b'' (PDict [(''x'', PFloat 4), (''z'', PFloat 8)]) 1]]"

definition cmp_scenario :: "int \<Rightarrow> real \<Rightarrow> cmp_monitor" where
  "cmp_scenario max_points min_dt =
     cmp_advance_to 1 (cmp_run cmp_scenario_calls (cmp_init max_points min_dt))"

text \<open>
  \<open>state_a = {x: 1, y: 3}\<close> and \<open>state_b = 5.0\<close> ingested at time 1 by a new metrics
  monitor, then \<open>state_a = {x: 3, y: 5}\<close> at time 2, then the advance to 2.
\<close>

definition met_scenario_calls :: "(string \<rightharpoonup> in_signal) list" where
  "met_scenario_calls =
     [[''state_a'' \<mapsto> sig ''a'' ''state_a'' (PDict [(''x'', PFloat 1), (''y'', PFloat 3)]) 1,
       ''state_b'' \<mapsto> sig ''b'' ''state_b'' (PFloat 5) 1],
      [''state_a'' \<mapsto> sig ''a'' ''state_a'' (PDict [(''x'', PFloat 3), (''y'', PFloat 5)]) 2]]"

definition met_scenario :: "int \<Rightarrow> real \<Rightarrow> met_monitor" where
  "met_scenario max_points min_dt =
     met_advance_to 2 (met_run met_scenario_calls (met_init max_points min_dt))"

section \<open>Invariants\<close>

text \<open>
  A history against the log of arrivals: a stream has a key exactly when something
  arrived for it, and the key holds the window of the log.
\<close>

definition hist_inv :: "int \<Rightarrow> (string \<Rightarrow> 'a list) \<Rightarrow> (string \<times> 'a list) list \<Rightarrow> bool" where
  "hist_inv max_points L hist \<longleftrightarrow>
     distinct (map fst hist)
     \<and> (\<forall>n. map_of hist n = (if L n = [] then None else Some (window max_points (L n))))"

definition log_known :: "(string \<Rightarrow> 'a list) \<Rightarrow> bool" where
  "log_known L \<longleftrightarrow> (\<forall>n. L n \<noteq> [] \<longrightarrow> n \<in> inputs)"

definition latest_inv :: "(string \<Rightarrow> (real \<times> real) list) \<Rightarrow> (string \<times> latest_entry) list \<Rightarrow> bool" where
  "latest_inv L latest \<longleftrightarrow>
     distinct (map fst latest)
     \<and> (\<forall>n. if L n = [] then map_of latest n = None
            else \<exists>e. map_of latest n = Some e \<and> (le_t e, le_scalar e) = last (L n))"

definition cmp_inv :: "(string \<Rightarrow> (real \<times> real) list) \<Rightarrow> cmp_monitor \<Rightarrow> bool" where
  "cmp_inv L s \<longleftrightarrow>
     log_known L \<and> hist_inv (c_max_points s) L (c_series s) \<and> latest_inv L (c_latest s)"

definition met_inv :: "(string \<Rightarrow> real list) \<Rightarrow> met_monitor \<Rightarrow> bool" where
  "met_inv L s \<longleftrightarrow> log_known L \<and> hist_inv (m_max_points s) L (m_history s)"

section \<open>Sequences of calls\<close>

text \<open>The log that a sequence of \<open>set_inputs\<close> calls leaves behind on a new monitor.\<close>

definition cmp_log :: "(string \<rightharpoonup> in_signal) list \<Rightarrow> string \<Rightarrow> (real \<times> real) list" where
  "cmp_log calls = fold (arrival_log cmp_observation sorted_inputs) calls (\<lambda>n. [])"

definition met_log :: "(string \<rightharpoonup> in_signal) list \<Rightarrow> string \<Rightarrow> real list" where
  "met_log calls = fold (arrival_log met_observation sorted_inputs) calls (\<lambda>n. [])"

text \<open>Three updates of \<open>state_a\<close>, with the values 1, 2 and 3 at the times 1, 2 and 3.\<close>

definition three_updates :: "(string \<rightharpoonup> in_signal) list" where
  "three_updates =
     [[''state_a'' \<mapsto> sig ''a'' ''state_a'' (PFloat 1) 1],
      [''state_a'' \<mapsto> sig ''a'' ''state_a'' (PFloat 2) 2],
      [''state_a'' \<mapsto> sig ''a'' ''state_a'' (PFloat 3) 3]]"

section \<open>What the table of \<open>visualize\<close> is read from\<close>

text \<open>
  The aggregate of the current snapshot: \<open>latest_values\<close>, or \<open>stream_metrics\<close>, of
  the stored signal, and the empty map while no snapshot is stored.
\<close>

definition cmp_snapshot_values :: "cmp_monitor \<Rightarrow> (string \<times> real) list" where
  "cmp_snapshot_values s =
     (case map_of (c_outputs s) ''comparison_state'' of
        Some sg \<Rightarrow> latest_values (sg_value sg)
      | None \<Rightarrow> [])"

definition met_snapshot_metrics :: "met_monitor \<Rightarrow> (string \<times> stats) list" where
  "met_snapshot_metrics s =
     (case map_of (m_outputs s) ''metrics'' of
        Some sg \<Rightarrow> stream_metrics (sg_value sg)
      | None \<Rightarrow> [])"

text \<open>A display string in fixed notation with \<open>d\<close> decimals: digits, a point, \<open>d\<close> digits.\<close>

definition is_digit :: "char \<Rightarrow> bool" where
  "is_digit c \<longleftrightarrow> c \<in> set ''0123456789''"

definition has_decimals :: "nat \<Rightarrow> string \<Rightarrow> bool" where
  "has_decimals d str \<longleftrightarrow>
     d < length str
     \<and> str ! (length str - Suc d) = CHR ''.''
     \<and> list_all is_digit (drop (length str - d) str)"
section \<open>The conversion of integers\<close>

lemma excess_bits_small: "a < 2 ^ 53 \<Longrightarrow> excess_bits a = 0"
  by (subst excess_bits.simps) simp

lemma excess_bits_range:
  "2 ^ (52 + k) \<le> a \<Longrightarrow> a < 2 ^ (53 + k) \<Longrightarrow> excess_bits a = k"
proof (induction k arbitrary: a)
  case 0
  then show ?case by (simp add: excess_bits_small)
next
  case (Suc k)
  have big: "\<not> a < 2 ^ 53"
  proof -
    have "(2::nat) ^ 53 \<le> 2 ^ (52 + Suc k)"
      by (rule power_increasing) simp_all
    then show ?thesis using Suc.prems(1) by simp
  qed
  have e: "(2::nat) ^ (52 + Suc k) = 2 * 2 ^ (52 + k)"
    by (simp only: add_Suc_right power_Suc)
  have lo: "2 ^ (52 + k) \<le> a div 2"
    using Suc.prems(1) unfolding e by linarith
  have e': "(2::nat) ^ (53 + Suc k) = 2 * 2 ^ (53 + k)"
    by (simp only: add_Suc_right power_Suc)
  have hi: "a div 2 < 2 ^ (53 + k)"
    using Suc.prems(2) unfolding e' by linarith
  have "excess_bits (a div 2) = k"
    using lo hi by (rule Suc.IH)
  then show ?case
    using big by (subst excess_bits.simps) simp
qed

text \<open>An integer of at most 53 bits is a double.\<close>

lemma double_of_int_small [simp]: "\<bar>i\<bar> < 2 ^ 53 \<Longrightarrow> double_of_int i = i"
proof -
  assume "\<bar>i\<bar> < 2 ^ 53"
  then have "nat \<bar>i\<bar> < 2 ^ 53"
    by (simp add: nat_less_iff)
  then have "excess_bits (nat \<bar>i\<bar>) = 0"
    by (rule excess_bits_small)
  then have "double_of_int i = sgn i * \<bar>i\<bar>"
    by (simp add: double_of_int_def Let_def)
  then show ?thesis
    by (simp add: mult_sgn_abs)
qed

text \<open>
  Beyond 53 bits the conversion rounds: \<open>float(2 ** 53 + 1)\<close> is \<open>2 ** 53\<close>, and the last
  integer in range becomes the largest double, \<open>2 ** 1024 - 2 ** 971\<close>.
\<close>

lemma double_of_int_rounds: "double_of_int (2 ^ 53 + 1) = 2 ^ 53"
proof -
  have "excess_bits (nat \<bar>2 ^ 53 + 1\<bar>) = 1"
    using excess_bits_range [of 1 "nat \<bar>2 ^ 53 + 1\<bar>"] by simp
  then show ?thesis
    by (simp add: double_of_int_def Let_def)
qed

lemma double_of_int_last: "double_of_int (2 ^ 1024 - 2 ^ 970 - 1) = 2 ^ 1024 - 2 ^ 971"
proof -
  have "excess_bits (nat \<bar>2 ^ 1024 - 2 ^ 970 - 1\<bar>) = 971"
    using excess_bits_range [of 971 "nat \<bar>2 ^ 1024 - 2 ^ 970 - 1\<bar>"] by simp
  then show ?thesis
    by (simp add: double_of_int_def Let_def)
qed

lemma excess_bits_spec:
  "2 ^ 53 \<le> a \<Longrightarrow> 2 ^ (52 + excess_bits a) \<le> a \<and> a < 2 ^ (53 + excess_bits a)"
proof (induction a rule: excess_bits.induct)
  case (1 a)
  then have big: "\<not> a < 2 ^ 53" by simp
  then have eq: "excess_bits a = Suc (excess_bits (a div 2))"
    by (subst excess_bits.simps) simp
  define e where "e = excess_bits (a div 2)"
  have p1: "(2::nat) ^ (52 + Suc e) = 2 * 2 ^ (52 + e)"
    and p2: "(2::nat) ^ (53 + Suc e) = 2 * 2 ^ (53 + e)"
    by (simp_all only: add_Suc_right power_Suc)
  have "2 * 2 ^ (52 + e) \<le> a \<and> a < 2 * 2 ^ (53 + e)"
  proof (cases "a div 2 < 2 ^ 53")
    case True
    then have "e = 0" by (simp add: e_def excess_bits_small)
    moreover have "a < 2 * 2 ^ 53" using True by linarith
    ultimately show ?thesis using "1.prems" by simp
  next
    case False
    then have "2 ^ 53 \<le> a div 2" by simp
    then have "2 ^ (52 + e) \<le> a div 2 \<and> a div 2 < 2 ^ (53 + e)"
      unfolding e_def by (rule "1.IH" [OF big])
    then show ?thesis by linarith
  qed
  then show ?case
    unfolding eq e_def [symmetric] p1 p2 .
qed

text \<open>
  The range of \<open>float(i)\<close> is the range of the rounding: the integers below
  \<open>2^1024 - 2^970\<close> are those that round below \<open>2^1024\<close>.
\<close>

lemma in_double_range_rounding: "in_double_range i \<longleftrightarrow> \<bar>double_of_int i\<bar> < 2 ^ 1024"
proof -
  define a where "a = nat \<bar>i\<bar>"
  define e where "e = excess_bits a"
  define q where "q = a div 2 ^ e"
  define r where "r = a mod 2 ^ e"
  define q' where "q' = (if 2 * r < 2 ^ e \<or> (2 * r = 2 ^ e \<and> even q) then q else q + 1)"
  have d: "\<bar>double_of_int i\<bar> = int (q' * 2 ^ e)"
  proof -
    have "double_of_int i = sgn i * int (q' * 2 ^ e)"
      by (simp add: double_of_int_def Let_def a_def e_def q_def r_def q'_def)
    moreover have "q' * 2 ^ e = 0" if "i = 0"
      using that by (simp add: q'_def q_def r_def a_def e_def excess_bits_small)
    ultimately show ?thesis
      by (cases "i = 0") (simp_all add: abs_mult abs_sgn_eq)
  qed
  have ia: "in_double_range i \<longleftrightarrow> a < 2 ^ 1024 - 2 ^ 970"
    unfolding in_double_range_def a_def by (simp add: nat_less_iff)
  have da: "\<bar>double_of_int i\<bar> < 2 ^ 1024 \<longleftrightarrow> q' * 2 ^ e < 2 ^ 1024"
    unfolding d by (metis of_nat_less_iff of_nat_numeral of_nat_power)
  have aq: "a = q * 2 ^ e + r"
    unfolding q_def r_def by (rule div_mult_mod_eq [symmetric])
  have rlt: "r < 2 ^ e"
    by (simp add: r_def)
  have qq: "q \<le> q'" "q' \<le> q + 1"
    by (simp_all add: q'_def)
  show ?thesis
  proof (cases "a < 2 ^ 53")
    case True
    then have "e = 0" by (simp add: e_def excess_bits_small)
    then have "q' * 2 ^ e = a"
      by (simp add: q'_def q_def r_def)
    moreover have "(2::nat) ^ 53 < 2 ^ 1024 - 2 ^ 970" by simp
    ultimately show ?thesis
      using True unfolding ia da by simp
  next
    case False
    then have lo: "2 ^ (52 + e) \<le> a" and hi: "a < 2 ^ (53 + e)"
      using excess_bits_spec [of a] by (simp_all add: e_def)
    have qlo: "2 ^ 52 \<le> q"
    proof -
      have "2 ^ 52 * 2 ^ e \<le> a" using lo by (simp add: power_add)
      then have "2 ^ 52 * 2 ^ e div 2 ^ e \<le> a div 2 ^ e" by (rule div_le_mono)
      then show ?thesis by (simp add: q_def)
    qed
    have qhi: "q < 2 ^ 53"
    proof -
      have "a < 2 ^ 53 * 2 ^ e" using hi by (simp add: power_add)
      then show ?thesis
        unfolding q_def by (simp add: less_mult_imp_div_less)
    qed
    show ?thesis
    proof (cases "e \<le> 970")
      case True
      have "q' * 2 ^ e \<le> 2 ^ 53 * 2 ^ e"
        using qq(2) qhi by (intro mult_right_mono) simp_all
      also have "\<dots> = 2 ^ (53 + e)" by (simp add: power_add)
      also have "\<dots> \<le> 2 ^ 1023"
        using True by (intro power_increasing) simp_all
      finally have r1: "q' * 2 ^ e < 2 ^ 1024"
        by (simp add: order_le_less_trans)
      have "a < 2 ^ 1023"
      proof -
        have "(2::nat) ^ (53 + e) \<le> 2 ^ 1023"
          using True by (intro power_increasing) simp_all
        then show ?thesis using hi by simp
      qed
      then have "a < 2 ^ 1024 - 2 ^ 970" by simp
      then show ?thesis
        unfolding ia da using r1 by simp
    next
      case False
      then have e971: "971 \<le> e" by simp
      show ?thesis
      proof (cases "e = 971")
        case True
        have aq': "a = q * 2 ^ 971 + r" and rlt': "r < 2 ^ 971"
          using aq rlt unfolding True by simp_all
        have q'def: "q' = (if 2 * r < 2 ^ 971 \<or> (2 * r = 2 ^ 971 \<and> even q) then q else q + 1)"
          unfolding q'_def True ..
        show ?thesis
        proof (cases "q = 2 ^ 53 - 1")
          case q53: True
          then have oddq: "odd q" by simp
          have T: "(2::nat) ^ 1024 - 2 ^ 970 = (2 ^ 53 - 1) * 2 ^ 971 + 2 ^ 970"
            by simp
          have "a < 2 ^ 1024 - 2 ^ 970 \<longleftrightarrow> r < 2 ^ 970"
            unfolding T aq' q53 by simp
          moreover have "q' * 2 ^ 971 < 2 ^ 1024 \<longleftrightarrow> q' = q"
          proof
            assume "q' * 2 ^ 971 < 2 ^ 1024"
            then have "q' \<noteq> 2 ^ 53" by auto
            then show "q' = q" using qq q53 by simp
          next
            assume "q' = q"
            then show "q' * 2 ^ 971 < 2 ^ 1024" using q53 by simp
          qed
          moreover have "q' = q \<longleftrightarrow> r < 2 ^ 970"
            unfolding q'def using oddq by auto
          ultimately show ?thesis
            unfolding ia da True by simp
        next
          case qs: False
          then have q2: "q + 1 \<le> 2 ^ 53 - 1" using qhi by simp
          have "q' * 2 ^ 971 \<le> (2 ^ 53 - 1) * 2 ^ 971"
            using qq(2) q2 by (intro mult_right_mono) simp_all
          then have r1: "q' * 2 ^ 971 < 2 ^ 1024" by simp
          have "q * 2 ^ 971 + r < (q + 1) * 2 ^ 971"
            using rlt' by simp
          also have "\<dots> \<le> (2 ^ 53 - 1) * 2 ^ 971"
            using q2 by (intro mult_right_mono) simp_all
          finally have "a < 2 ^ 1024 - 2 ^ 970"
            unfolding aq' by simp
          then show ?thesis
            unfolding ia da True using r1 by simp
        qed
      next
        case False
        then have e972: "972 \<le> e" using e971 by simp
        have "(2::nat) ^ 1024 \<le> 2 ^ (52 + e)"
          using e972 by (intro power_increasing) simp_all
        then have abig: "2 ^ 1024 \<le> a" using lo by simp
        have "(2::nat) ^ 1024 = 2 ^ 52 * 2 ^ 972" by simp
        also have "\<dots> \<le> q' * 2 ^ e"
        proof (intro mult_mono)
          show "2 ^ 52 \<le> q'" using qlo qq(1) by simp
          show "(2::nat) ^ 972 \<le> 2 ^ e" using e972 by (intro power_increasing) simp_all
        qed simp_all
        finally have "\<not> q' * 2 ^ e < 2 ^ 1024" by simp
        moreover have "\<not> a < 2 ^ 1024 - 2 ^ 970" using abig by simp
        ultimately show ?thesis
          unfolding ia da by simp
      qed
    qed
  qed
qed

section \<open>Properties of the scalar projection\<close>

lemma extract_scalar_in_eq: "extract_scalar_in A v = scalar_projection_in A v"
  by (simp add: extract_scalar_in_def scalar_projection_in_def)

lemma collect_nums_in_char:
  "collect_nums_in A vs =
     (if list_all convertible vs then Inr (float_entries A vs) else Inl OverflowError)"
proof (induction vs)
  case Nil
  show ?case by (simp add: float_entries_def List.map_filter_simps)
next
  case (Cons v vs)
  show ?case
  proof (cases v)
    case (PInt i)
    then show ?thesis
      using Cons by (simp add: float_entries_def List.map_filter_simps convertible_def)
  qed (use Cons in \<open>simp_all add: float_entries_def List.map_filter_simps convertible_def\<close>)
qed

lemma scalar_projection_in_char:
  "scalar_projection_in A v
     = (if floatable v then Inr (projection_rule A v) else Inl OverflowError)"
proof (cases v)
  case (PDict kvs)
  then show ?thesis
    by (simp add: scalar_projection_in_def floatable_def collect_nums_in_char
        float_mean_or_zero_def mean_in_def)
next
  case (PList vs)
  then show ?thesis
    by (simp add: scalar_projection_in_def floatable_def collect_nums_in_char
        float_mean_or_zero_def mean_in_def)
qed (simp_all add: scalar_projection_in_def floatable_def convertible_def)

text \<open>The projection of the monitors is the projection over the arithmetic \<open>ideal\<close>.\<close>

lemma py_float_ideal: "py_float n = py_float_in ideal n"
  by (cases n) (simp_all add: ideal_def)

lemma collect_nums_ideal: "collect_nums vs = collect_nums_in ideal vs"
  by (induction vs) (simp_all add: py_float_ideal split: option.splits sum.splits)

lemma mean_ideal: "mean nums = mean_in ideal nums"
  by (simp add: mean_def mean_in_def ideal_def)

lemma float_zero_ideal: "float_of_int ideal 0 = 0"
  by (simp add: ideal_def)

lemma scalar_projection_ideal: "scalar_projection v = scalar_projection_in ideal v"
  by (cases v)
     (simp_all add: scalar_projection_def scalar_projection_in_def py_float_ideal
        collect_nums_ideal mean_ideal float_zero_ideal split: sum.splits)

lemma extract_scalar_ideal: "extract_scalar v = extract_scalar_in ideal v"
  by (cases v)
     (simp_all add: extract_scalar_def extract_scalar_in_def py_float_ideal
        collect_nums_ideal mean_ideal float_zero_ideal split: sum.splits)

lemma extract_scalar_eq: "extract_scalar v = scalar_projection v"
  by (simp add: extract_scalar_def scalar_projection_def)

lemma collect_nums_char:
  "collect_nums vs =
     (if list_all convertible vs then Inr (numeric_entries vs) else Inl OverflowError)"
proof (induction vs)
  case Nil
  show ?case by (simp add: numeric_entries_def List.map_filter_simps)
next
  case (Cons v vs)
  show ?case
  proof (cases v)
    case (PInt i)
    then show ?thesis
      using Cons by (simp add: numeric_entries_def List.map_filter_simps convertible_def)
  qed (use Cons in \<open>simp_all add: numeric_entries_def List.map_filter_simps convertible_def\<close>)
qed

lemma scalar_projection_char:
  "scalar_projection v = (if floatable v then Inr (projection_spec v) else Inl OverflowError)"
proof (cases v)
  case (PDict kvs)
  then show ?thesis
    by (simp add: scalar_projection_def floatable_def collect_nums_char mean_or_zero_def mean_def)
next
  case (PList vs)
  then show ?thesis
    by (simp add: scalar_projection_def floatable_def collect_nums_char mean_or_zero_def mean_def)
qed (simp_all add: scalar_projection_def floatable_def convertible_def)

text \<open>
  Claim C1, as the specification states it, fails in three ways, in both monitors.  The
  projection is not total: an integer beyond the range of the doubles makes
  \<open>float(value)\<close> raise \<open>OverflowError\<close>, as \<open>2 ** 1024\<close> does.  A number does not always
  project to itself, nor a collection to the arithmetic mean of its numeric entries: the
  conversion rounds, so \<open>2 ** 53 + 1\<close> projects to \<open>2 ** 53\<close> and the list
  \<open>[2 ** 53 + 1, 0]\<close> to \<open>2 ** 52\<close>, which is not its mean.  And only a list is averaged:
  the tuple \<open>(1, 2)\<close>, a sequence, projects to 0, where the list \<open>[1, 2]\<close> projects to
  \<open>1.5\<close>.
\<close>

theorem projection_overflow_counterexample:
  "scalar_projection (PInt (2 ^ 1024)) = Inl OverflowError
   \<and> extract_scalar (PInt (2 ^ 1024)) = Inl OverflowError
   \<and> scalar_projection (PInt (2 ^ 53 + 1)) = Inr (2 ^ 53)
   \<and> extract_scalar (PInt (2 ^ 53 + 1)) = Inr (2 ^ 53)
   \<and> scalar_projection (PList [PInt (2 ^ 53 + 1), PInt 0]) = Inr (2 ^ 52)
   \<and> extract_scalar (PList [PInt (2 ^ 53 + 1), PInt 0]) = Inr (2 ^ 52)
   \<and> (2 ^ 53 + 1 + 0) / 2 \<noteq> (2 ^ 52 :: real)
   \<and> scalar_projection (PTuple [PInt 1, PInt 2]) = Inr 0
   \<and> extract_scalar (PTuple [PInt 1, PInt 2]) = Inr 0
   \<and> scalar_projection (PList [PInt 1, PInt 2]) = Inr (3 / 2)
   \<and> extract_scalar (PList [PInt 1, PInt 2]) = Inr (3 / 2)"
  by (simp add: scalar_projection_def extract_scalar_def in_double_range_def mean_def
      double_of_int_rounds [simplified])

text \<open>
  Claim C1, amended: on every value whose integers (the value itself, or the direct
  entries of the dict or list) are in the range of the doubles, both projections return
  a float, and the result is shape-directed.  A bare float projects to itself, a bare
  boolean to \<open>1.0\<close> or \<open>0.0\<close>, a bare integer to \<open>float\<close> of it.  A dict projects to
  \<open>sum(nums) / len(nums)\<close>, as the float arithmetic computes it, where \<open>nums\<close> are the
  conversions of its numeric entries (the other entries ignored), and to \<open>0.0\<close> when no
  entry is numeric; a list projects by the same rule on its elements.  Any other shape, a
  tuple included, projects to \<open>0.0\<close>.  On every other value the projection raises
  \<open>OverflowError\<close>.  This holds whatever the float arithmetic is, so it holds for the
  doubles, where the quotient is the arithmetic mean up to rounding and is \<open>inf\<close> or
  \<open>nan\<close> when the sum leaves the finite range.
\<close>

theorem projection_shape_directed:
  "scalar_projection_in A v
     = (if floatable v then Inr (projection_rule A v) else Inl OverflowError)
   \<and> extract_scalar_in A v
     = (if floatable v then Inr (projection_rule A v) else Inl OverflowError)"
  using scalar_projection_in_char [of A v] by (simp only: extract_scalar_in_eq)

theorem projection_shape_directed_witness:
  "floatable (PDict [(''x'', PFloat (10::real)), (''note'', PStr ''n/a''), (''y'', PInt 20)])
   \<and> scalar_projection_in ideal
        (PDict [(''x'', PFloat 10), (''note'', PStr ''n/a''), (''y'', PInt 20)]) = Inr 15
   \<and> extract_scalar_in ideal
        (PDict [(''x'', PFloat 10), (''note'', PStr ''n/a''), (''y'', PInt 20)]) = Inr 15
   \<and> floatable (PTuple [PInt 1, PInt 2 :: real pyval])
   \<and> scalar_projection_in ideal (PTuple [PInt 1, PInt 2]) = Inr 0
   \<and> floatable (PList [PStr ''a'', PNone :: real pyval])
   \<and> scalar_projection_in ideal (PList [PStr ''a'', PNone]) = Inr 0
   \<and> \<not> floatable (PList [PFloat (1::real), PInt (2 ^ 1024)])
   \<and> scalar_projection_in ideal (PList [PFloat 1, PInt (2 ^ 1024)]) = Inl OverflowError"
  using
    projection_shape_directed
      [of ideal "PDict [(''x'', PFloat 10), (''note'', PStr ''n/a''), (''y'', PInt 20)]"]
    projection_shape_directed [of ideal "PTuple [PInt 1, PInt 2]"]
    projection_shape_directed [of ideal "PList [PStr ''a'', PNone]"]
    projection_shape_directed [of ideal "PList [PFloat 1, PInt (2 ^ 1024)]"]
  by (simp add: floatable_def convertible_def in_double_range_def float_mean_or_zero_def
      float_entries_def List.map_filter_simps ideal_def)

text \<open>
  Claim C10: a boolean is a number to the projection.  \<open>True\<close> projects to 1 and \<open>False\<close>
  to 0, not to the fallback of the other shapes; a boolean entry anywhere in a dict or a
  list adds its value to the sum and one to the count of the mean; and
  \<open>{"x": True, "y": 3}\<close> projects to 2.
\<close>

theorem bool_is_numeric:
  "scalar_projection (PBool True) = Inr 1 \<and> scalar_projection (PBool False) = Inr 0
   \<and> extract_scalar (PBool True) = Inr 1 \<and> extract_scalar (PBool False) = Inr 0
   \<and> scalar_projection (PDict [(''x'', PBool True), (''y'', PInt 3)]) = Inr 2
   \<and> extract_scalar (PDict [(''x'', PBool True), (''y'', PInt 3)]) = Inr 2
   \<and> numeric_entries (us @ PBool b # vs)
       = numeric_entries us @ (if b then 1 else 0) # numeric_entries vs
   \<and> (list_all convertible (us @ vs) \<longrightarrow>
        scalar_projection (PList (us @ PBool b # vs))
          = Inr ((sum_list (numeric_entries (us @ vs)) + (if b then 1 else 0))
                 / real (length (numeric_entries (us @ vs)) + 1))
        \<and> scalar_projection (PDict (kus @ (k, PBool b) # kvs))
          = scalar_projection (PList (map snd kus @ PBool b # map snd kvs)))"
proof -
  have ne: "numeric_entries (xs @ ys) = numeric_entries xs @ numeric_entries ys" for xs ys
    by (simp add: numeric_entries_def List.map_filter_def)
  have ne1: "numeric_entries (PBool c # ys) = (if c then 1 else 0) # numeric_entries ys" for c ys
    by (simp add: numeric_entries_def List.map_filter_simps)
  have a: "numeric_entries (us @ PBool b # vs)
       = numeric_entries us @ (if b then 1 else 0) # numeric_entries vs"
    by (simp only: ne ne1)
  have b1: "scalar_projection (PDict [(''x'', PBool True), (''y'', PInt 3)]) = Inr 2"
    by (simp add: scalar_projection_def mean_def in_double_range_def)
  have c: "scalar_projection (PList (us @ PBool b # vs))
          = Inr ((sum_list (numeric_entries (us @ vs)) + (if b then 1 else 0))
                 / real (length (numeric_entries (us @ vs)) + 1))"
    if "list_all convertible (us @ vs)"
  proof -
    have "list_all convertible (us @ PBool b # vs)"
      using that by (simp add: convertible_def)
    then show ?thesis
      by (simp add: scalar_projection_def collect_nums_char mean_def ne ne1 add.commute
          add.left_commute)
  qed
  have d: "scalar_projection (PDict (kus @ (k, PBool b) # kvs))
          = scalar_projection (PList (map snd kus @ PBool b # map snd kvs))"
    by (simp add: scalar_projection_def)
  show ?thesis
    using a b1 c d by (simp add: extract_scalar_eq scalar_projection_def)
qed

theorem bool_is_numeric_witness:
  "list_all convertible ([PInt 3] @ [PStr ''s''])
   \<and> scalar_projection (PList ([PInt 3] @ PBool True # [PStr ''s''])) = Inr 2
   \<and> scalar_projection (PList [PBool True, PBool False]) = Inr (1 / 2)"
  using bool_is_numeric [of "[PInt 3]" True "[PStr ''s'']" "[]" "[]" "[]"]
    bool_is_numeric [of "[]" True "[PBool False]" "[]" "[]" "[]"]
  by (simp add: convertible_def in_double_range_def numeric_entries_def List.map_filter_simps)


section \<open>The loop of \<open>set_inputs\<close> and the high-water time\<close>

lemma sorted_inputs_eq: "sorted_inputs = [''state_a'', ''state_b'', ''state_c'', ''state_d'']"
  by (simp add: sorted_inputs_def inputs_def sorted_list_of_set.fold_insort_key.remove)

lemma cmp_ingest_last_t:
  "cmp_ingest name sg s = Inr s' \<Longrightarrow> c_last_t s' = max (c_last_t s) (in_time sg)"
  by (auto simp: cmp_ingest_def Let_def split: sum.splits)

lemma met_ingest_latest_t:
  "met_ingest name sg s = Inr s' \<Longrightarrow> m_latest_t s' = max (m_latest_t s) (in_time sg)"
  by (auto simp: met_ingest_def split: sum.splits)

lemma loop_time_mono:
  assumes step: "\<And>n sg s s'. ingest n sg s = Inr s' \<Longrightarrow> tm s' = max (tm s) (in_time sg)"
  shows "(tm s :: real) \<le> tm (snd (ingest_loop ingest names signals s))"
proof (induction names arbitrary: s)
  case Nil
  show ?case by simp
next
  case (Cons n names)
  show ?case
  proof (cases "signals n")
    case None
    then show ?thesis using Cons by simp
  next
    case (Some sg)
    show ?thesis
    proof (cases "ingest n sg s")
      case (Inl e)
      then show ?thesis using Some by simp
    next
      case (Inr s')
      have "tm s \<le> tm s'"
        using step [OF Inr] by simp
      also have "\<dots> \<le> tm (snd (ingest_loop ingest names signals s'))"
        by (rule Cons)
      finally show ?thesis using Some Inr by simp
    qed
  qed
qed

lemma loop_time_complete:
  assumes step: "\<And>n sg s s'. ingest n sg s = Inr s' \<Longrightarrow> tm s' = max (tm s) (in_time sg)"
  shows "fst (ingest_loop ingest names signals s) = None \<Longrightarrow>
    tm (snd (ingest_loop ingest names signals s))
      = fold max (map in_time (List.map_filter signals names)) (tm s :: real)"
proof (induction names arbitrary: s)
  case Nil
  show ?case by (simp add: List.map_filter_simps)
next
  case (Cons n names)
  show ?case
  proof (cases "signals n")
    case None
    then show ?thesis using Cons by (simp add: List.map_filter_simps)
  next
    case (Some sg)
    show ?thesis
    proof (cases "ingest n sg s")
      case (Inl e)
      then show ?thesis using Some Cons.prems by simp
    next
      case (Inr s')
      then show ?thesis
        using Some Cons.prems Cons.IH [of s'] step [OF Inr]
        by (simp add: List.map_filter_simps max.commute)
    qed
  qed
qed

lemma loop_time_stale:
  assumes step: "\<And>n sg s s'. ingest n sg s = Inr s' \<Longrightarrow> tm s' = max (tm s) (in_time sg)"
  shows "list_all (\<lambda>t. t \<le> tm s) (map in_time (List.map_filter signals names)) \<Longrightarrow>
    tm (snd (ingest_loop ingest names signals s)) = (tm s :: real)"
proof (induction names arbitrary: s)
  case Nil
  show ?case by simp
next
  case (Cons n names)
  show ?case
  proof (cases "signals n")
    case None
    then show ?thesis using Cons by (simp add: List.map_filter_simps)
  next
    case (Some sg)
    show ?thesis
    proof (cases "ingest n sg s")
      case (Inl e)
      then show ?thesis using Some by simp
    next
      case (Inr s')
      have eq: "tm s' = tm s"
        using step [OF Inr] Cons.prems Some by (simp add: List.map_filter_simps)
      have "tm (snd (ingest_loop ingest names signals s')) = tm s'"
        using Cons.prems Some eq by (intro Cons.IH) (simp add: List.map_filter_simps)
      then show ?thesis using Some Inr eq by simp
    qed
  qed
qed

lemma fold_max_Max: "fold max ts (t::real) = Max (set (t # ts))"
proof (induction ts arbitrary: t)
  case Nil
  show ?case by simp
next
  case (Cons a ts)
  have "fold max (a # ts) t = Max (set (max a t # ts))" using Cons by simp
  also have "\<dots> = Max (insert (max a t) (set ts))" by simp
  also have "\<dots> = Max (insert t (insert a (set ts)))"
    by (cases "set ts = {}") (auto simp: max.commute max.left_commute max.assoc)
  finally show ?case by simp
qed

lemma cmp_run_mono: "c_last_t s \<le> c_last_t (cmp_run calls s)"
proof (induction calls arbitrary: s)
  case Nil
  show ?case by (simp add: cmp_run_def)
next
  case (Cons c calls)
  have "c_last_t s \<le> c_last_t (snd (cmp_set_inputs c s))"
    unfolding cmp_set_inputs_def by (rule loop_time_mono [OF cmp_ingest_last_t])
  also have "\<dots> \<le> c_last_t (cmp_run calls (snd (cmp_set_inputs c s)))"
    by (rule Cons)
  finally show ?case by (simp add: cmp_run_def)
qed

lemma met_run_mono: "m_latest_t s \<le> m_latest_t (met_run calls s)"
proof (induction calls arbitrary: s)
  case Nil
  show ?case by (simp add: met_run_def)
next
  case (Cons c calls)
  have "m_latest_t s \<le> m_latest_t (snd (met_set_inputs c s))"
    unfolding met_set_inputs_def by (rule loop_time_mono [OF met_ingest_latest_t])
  also have "\<dots> \<le> m_latest_t (met_run calls (snd (met_set_inputs c s)))"
    by (rule Cons)
  finally show ?case by (simp add: met_run_def)
qed

lemma cmp_run_append: "cmp_run (xs @ ys) s = cmp_run ys (cmp_run xs s)"
  by (simp add: cmp_run_def)

lemma met_run_append: "met_run (xs @ ys) s = met_run ys (met_run xs s)"
  by (simp add: met_run_def)

text \<open>
  Claim C3: the high-water time never decreases.  A call of \<open>set_inputs\<close> that completes
  leaves it at the maximum of its previous value and the timestamps the call carries for
  the known streams; a call whose timestamps are all at most the current value leaves it
  unchanged; and along any sequence of calls, whatever they raise, a longer sequence
  never has a smaller high-water time.  This holds for both monitors.
\<close>

theorem high_water_monotone:
  "c_last_t s \<le> c_last_t (snd (cmp_set_inputs signals s))
   \<and> (fst (cmp_set_inputs signals s) = None \<longrightarrow>
        c_last_t (snd (cmp_set_inputs signals s)) = Max (set (c_last_t s # observed_times signals)))
   \<and> (list_all (\<lambda>t. t \<le> c_last_t s) (observed_times signals) \<longrightarrow>
        c_last_t (snd (cmp_set_inputs signals s)) = c_last_t s)
   \<and> c_last_t (cmp_run calls s) \<le> c_last_t (cmp_run (calls @ later) s)
   \<and> m_latest_t u \<le> m_latest_t (snd (met_set_inputs signals u))
   \<and> (fst (met_set_inputs signals u) = None \<longrightarrow>
        m_latest_t (snd (met_set_inputs signals u)) = Max (set (m_latest_t u # observed_times signals)))
   \<and> (list_all (\<lambda>t. t \<le> m_latest_t u) (observed_times signals) \<longrightarrow>
        m_latest_t (snd (met_set_inputs signals u)) = m_latest_t u)
   \<and> m_latest_t (met_run calls u) \<le> m_latest_t (met_run (calls @ later) u)"
proof -
  have c1: "c_last_t s \<le> c_last_t (snd (cmp_set_inputs signals s))"
    unfolding cmp_set_inputs_def by (rule loop_time_mono [OF cmp_ingest_last_t])
  have c2: "c_last_t (snd (cmp_set_inputs signals s)) = Max (set (c_last_t s # observed_times signals))"
    if "fst (cmp_set_inputs signals s) = None"
    using that loop_time_complete [of cmp_ingest c_last_t sorted_inputs signals s, OF cmp_ingest_last_t]
    unfolding cmp_set_inputs_def observed_times_def by (simp only: fold_max_Max)
  have c3: "c_last_t (snd (cmp_set_inputs signals s)) = c_last_t s"
    if "list_all (\<lambda>t. t \<le> c_last_t s) (observed_times signals)"
    using that loop_time_stale [of cmp_ingest c_last_t s signals sorted_inputs, OF cmp_ingest_last_t]
    unfolding cmp_set_inputs_def observed_times_def by simp
  have c4: "c_last_t (cmp_run calls s) \<le> c_last_t (cmp_run (calls @ later) s)"
    by (simp only: cmp_run_append cmp_run_mono)
  have m1: "m_latest_t u \<le> m_latest_t (snd (met_set_inputs signals u))"
    unfolding met_set_inputs_def by (rule loop_time_mono [OF met_ingest_latest_t])
  have m2: "m_latest_t (snd (met_set_inputs signals u)) = Max (set (m_latest_t u # observed_times signals))"
    if "fst (met_set_inputs signals u) = None"
    using that loop_time_complete [of met_ingest m_latest_t sorted_inputs signals u, OF met_ingest_latest_t]
    unfolding met_set_inputs_def observed_times_def by (simp only: fold_max_Max)
  have m3: "m_latest_t (snd (met_set_inputs signals u)) = m_latest_t u"
    if "list_all (\<lambda>t. t \<le> m_latest_t u) (observed_times signals)"
    using that loop_time_stale [of met_ingest m_latest_t u signals sorted_inputs, OF met_ingest_latest_t]
    unfolding met_set_inputs_def observed_times_def by simp
  have m4: "m_latest_t (met_run calls u) \<le> m_latest_t (met_run (calls @ later) u)"
    by (simp only: met_run_append met_run_mono)
  show ?thesis
    using c1 c2 c3 c4 m1 m2 m3 m4 by blast
qed


lemmas eval_defs =
  cmp_run_def met_run_def cmp_scenario_calls_def met_scenario_calls_def
  cmp_set_inputs_def met_set_inputs_def sorted_inputs_eq cmp_ingest_def met_ingest_def
  scalar_projection_def extract_scalar_def mean_def cmp_init_def met_init_def
  append_point_def trim_points_def py_slice_from_def sig_def

theorem high_water_monotone_witness:
  "fst (cmp_set_inputs [''state_b'' \<mapsto> sig ''b'' ''state_b'' (PFloat 7) 2]
          (snd (cmp_set_inputs [''state_a'' \<mapsto> sig ''a'' ''state_a'' (PFloat 3) 5] (cmp_init 10 1)))) = None
   \<and> list_all (\<lambda>t. t \<le> c_last_t (snd (cmp_set_inputs [''state_a'' \<mapsto> sig ''a'' ''state_a'' (PFloat 3) 5] (cmp_init 10 1))))
        (observed_times [''state_b'' \<mapsto> sig ''b'' ''state_b'' (PFloat 7) 2])
   \<and> c_last_t (snd (cmp_set_inputs [''state_a'' \<mapsto> sig ''a'' ''state_a'' (PFloat 3) 5] (cmp_init 10 1))) = 5
   \<and> c_last_t (snd (cmp_set_inputs [''state_b'' \<mapsto> sig ''b'' ''state_b'' (PFloat 7) 2]
          (snd (cmp_set_inputs [''state_a'' \<mapsto> sig ''a'' ''state_a'' (PFloat 3) 5] (cmp_init 10 1))))) = 5
   \<and> fst (met_set_inputs [''state_b'' \<mapsto> sig ''b'' ''state_b'' (PFloat 7) 2]
          (snd (met_set_inputs [''state_a'' \<mapsto> sig ''a'' ''state_a'' (PFloat 3) 5] (met_init 10 1)))) = None
   \<and> list_all (\<lambda>t. t \<le> m_latest_t (snd (met_set_inputs [''state_a'' \<mapsto> sig ''a'' ''state_a'' (PFloat 3) 5] (met_init 10 1))))
        (observed_times [''state_b'' \<mapsto> sig ''b'' ''state_b'' (PFloat 7) 2])
   \<and> m_latest_t (snd (met_set_inputs [''state_b'' \<mapsto> sig ''b'' ''state_b'' (PFloat 7) 2]
          (snd (met_set_inputs [''state_a'' \<mapsto> sig ''a'' ''state_a'' (PFloat 3) 5] (met_init 10 1))))) = 5"
  using high_water_monotone
    [of "snd (cmp_set_inputs [''state_a'' \<mapsto> sig ''a'' ''state_a'' (PFloat 3) 5] (cmp_init 10 1))"
        "[''state_b'' \<mapsto> sig ''b'' ''state_b'' (PFloat 7) 2]" "[]" "[]"
        "snd (met_set_inputs [''state_a'' \<mapsto> sig ''a'' ''state_a'' (PFloat 3) 5] (met_init 10 1))"]
  by (simp add: eval_defs observed_times_def List.map_filter_simps)

text \<open>
  Claim C6: the snapshot that \<open>advance_to(t)\<close> stores has one entry, and its signal
  carries \<open>max(t, high-water time)\<close> both as its timestamp and in the time field of its
  payload; with \<open>t\<close> below the high-water time that is the high-water time.  This holds
  in every state of either monitor.
\<close>

theorem advance_effective_time:
  "map (\<lambda>(k, sg). (k, sg_time sg, cmp_t (sg_value sg))) (cmp_get_outputs (cmp_advance_to t s))
     = [(''comparison_state'', max t (c_last_t s), max t (c_last_t s))]
   \<and> map (\<lambda>(k, sg). (k, sg_time sg, met_t (sg_value sg))) (met_get_outputs (met_advance_to t u))
     = [(''metrics'', max t (m_latest_t u), max t (m_latest_t u))]
   \<and> (t < c_last_t s \<longrightarrow>
        map (\<lambda>(k, sg). (sg_time sg, cmp_t (sg_value sg))) (cmp_get_outputs (cmp_advance_to t s))
          = [(c_last_t s, c_last_t s)])
   \<and> (t < m_latest_t u \<longrightarrow>
        map (\<lambda>(k, sg). (sg_time sg, met_t (sg_value sg))) (met_get_outputs (met_advance_to t u))
          = [(m_latest_t u, m_latest_t u)])"
  by (simp add: cmp_get_outputs_def met_get_outputs_def cmp_advance_to_def met_advance_to_def
      Let_def max_def)

theorem advance_effective_time_witness:
  "(2::real) < c_last_t (snd (cmp_set_inputs [''state_a'' \<mapsto> sig ''a'' ''state_a'' (PFloat 3) 5] (cmp_init 10 1)))
   \<and> map (\<lambda>(k, sg). (sg_time sg, cmp_t (sg_value sg)))
        (cmp_get_outputs (cmp_advance_to 2
           (snd (cmp_set_inputs [''state_a'' \<mapsto> sig ''a'' ''state_a'' (PFloat 3) 5] (cmp_init 10 1)))))
      = [(5, 5)]
   \<and> (2::real) < m_latest_t (snd (met_set_inputs [''state_a'' \<mapsto> sig ''a'' ''state_a'' (PFloat 3) 5] (met_init 10 1)))
   \<and> map (\<lambda>(k, sg). (sg_time sg, met_t (sg_value sg)))
        (met_get_outputs (met_advance_to 2
           (snd (met_set_inputs [''state_a'' \<mapsto> sig ''a'' ''state_a'' (PFloat 3) 5] (met_init 10 1)))))
      = [(5, 5)]"
proof -
  have c: "c_last_t (snd (cmp_set_inputs [''state_a'' \<mapsto> sig ''a'' ''state_a'' (PFloat 3) 5] (cmp_init 10 1))) = 5"
    by (simp add: eval_defs)
  have m: "m_latest_t (snd (met_set_inputs [''state_a'' \<mapsto> sig ''a'' ''state_a'' (PFloat 3) 5] (met_init 10 1))) = 5"
    by (simp add: eval_defs)
  show ?thesis
    using advance_effective_time
      [of 2 "snd (cmp_set_inputs [''state_a'' \<mapsto> sig ''a'' ''state_a'' (PFloat 3) 5] (cmp_init 10 1))"
          "snd (met_set_inputs [''state_a'' \<mapsto> sig ''a'' ''state_a'' (PFloat 3) 5] (met_init 10 1))"]
    by (simp only: c m) simp
qed

text \<open>
  Claim C8: after \<open>reset()\<close> a monitor is in the state of a new monitor with the same
  construction parameters (and the same \<open>_world_name\<close>, which no query reads): the
  history and the latest updates are empty, the snapshot map is empty, the high-water
  time is zero, and \<open>get_outputs\<close> and \<open>visualize\<close> answer as they do on the new monitor,
  with the empty map and with nothing.
\<close>

theorem reset_is_fresh:
  "cmp_reset s = (cmp_init (c_max_points s) (c_min_dt s))\<lparr>c_world_name := c_world_name s\<rparr>
   \<and> cmp_get_outputs (cmp_reset s) = cmp_get_outputs (cmp_init (c_max_points s) (c_min_dt s))
   \<and> cmp_visualize (cmp_reset s) = cmp_visualize (cmp_init (c_max_points s) (c_min_dt s))
   \<and> c_series (cmp_reset s) = [] \<and> c_latest (cmp_reset s) = []
   \<and> cmp_get_outputs (cmp_reset s) = [] \<and> c_last_t (cmp_reset s) = 0
   \<and> cmp_visualize (cmp_reset s) = None
   \<and> met_reset u = (met_init (m_max_points u) (m_min_dt u))\<lparr>m_world_name := m_world_name u\<rparr>
   \<and> met_get_outputs (met_reset u) = met_get_outputs (met_init (m_max_points u) (m_min_dt u))
   \<and> met_visualize (met_reset u) = met_visualize (met_init (m_max_points u) (m_min_dt u))
   \<and> m_history (met_reset u) = []
   \<and> met_get_outputs (met_reset u) = [] \<and> m_latest_t (met_reset u) = 0
   \<and> met_visualize (met_reset u) = None"
  by (simp add: cmp_reset_def cmp_init_def cmp_get_outputs_def cmp_visualize_def
      met_reset_def met_init_def met_get_outputs_def met_visualize_def)

theorem reset_is_fresh_witness:
  "cmp_reset (cmp_scenario 10 1) = cmp_init 10 1
   \<and> cmp_visualize (cmp_reset (cmp_scenario 10 1)) = None
   \<and> cmp_get_outputs (cmp_reset (cmp_scenario 10 1)) = []
   \<and> met_reset (met_scenario 10 1) = met_init 10 1
   \<and> met_visualize (met_reset (met_scenario 10 1)) = None
   \<and> met_get_outputs (met_reset (met_scenario 10 1)) = []"
proof -
  have c: "c_max_points (cmp_scenario 10 1) = 10 \<and> c_min_dt (cmp_scenario 10 1) = 1
      \<and> c_world_name (cmp_scenario 10 1) = None"
    by (simp add: cmp_scenario_def cmp_advance_to_def Let_def eval_defs)
  have m: "m_max_points (met_scenario 10 1) = 10 \<and> m_min_dt (met_scenario 10 1) = 1
      \<and> m_world_name (met_scenario 10 1) = None"
    by (simp add: met_scenario_def met_advance_to_def Let_def eval_defs)
  show ?thesis
    using reset_is_fresh [of "cmp_scenario 10 1" "met_scenario 10 1"]
    by (simp add: c m cmp_init_def met_init_def cmp_visualize_def met_visualize_def
        cmp_get_outputs_def met_get_outputs_def)
qed


section \<open>Histories and the log of arrivals\<close>

lemma window_Nil: "window mp [] = []"
  by (simp add: window_def)

lemma window_step:
  "(if mp < int (length (window mp xs @ [x]))
    then py_slice_from (- mp) (window mp xs @ [x]) else window mp xs @ [x])
   = window mp (xs @ [x])"
proof -
  consider "0 < mp" | "mp = 0" | "mp < 0" by linarith
  then show ?thesis
  proof cases
    case 1
    then obtain k where k: "mp = int (Suc k)"
      by (metis Suc_pred' nat_0_iff nat_int order_less_le zero_less_nat_eq int_nat_eq)
    show ?thesis
    proof (cases "Suc k \<le> length xs")
      case True
      then have "drop (Suc (length xs - Suc k)) xs = drop (length xs - k) xs"
        by (simp add: Suc_diff_Suc)
      then show ?thesis
        using True by (simp add: window_def py_slice_from_def k Suc_diff_le)
    next
      case False
      then show ?thesis
        by (simp add: window_def py_slice_from_def k)
    qed
  next
    case 2
    then show ?thesis by (simp add: window_def py_slice_from_def)
  next
    case 3
    then show ?thesis by (simp add: window_def py_slice_from_def)
  qed
qed

lemma window_length: "0 < mp \<Longrightarrow> int (length (window mp xs)) \<le> mp"
  by (simp add: window_def)

lemma window_full:
  "0 < mp \<Longrightarrow> mp < int (length xs) \<Longrightarrow>
   window mp xs = drop (length xs - nat mp) xs \<and> int (length (window mp xs)) = mp"
  by (simp add: window_def)


lemma hist_inv_empty: "hist_inv mp (\<lambda>n. []) []"
  by (simp add: hist_inv_def)

lemma hist_inv_step:
  assumes "hist_inv mp L hist"
  shows "hist_inv mp (L(n := L n @ [x])) (trim_points mp n (append_point n x hist))"
proof -
  have d: "distinct (map fst hist)"
    and m: "\<And>k. map_of hist k = (if L k = [] then None else Some (window mp (L k)))"
    using assms by (simp_all add: hist_inv_def)
  have old: "(case map_of hist n of None \<Rightarrow> [] | Some xs \<Rightarrow> xs) = window mp (L n)"
    by (simp add: m window_Nil)
  let ?h1 = "append_point n x hist"
  have h1: "map_of ?h1 = (map_of hist)(n \<mapsto> window mp (L n) @ [x])"
    by (simp add: append_point_def old update_conv')
  have d1: "distinct (map fst ?h1)"
    using d by (simp add: append_point_def distinct_update)
  have h2: "map_of (trim_points mp n ?h1) = (map_of hist)(n \<mapsto> window mp (L n @ [x]))"
    using window_step [of mp "L n" x]
    by (auto simp: trim_points_def h1 update_conv' split: if_splits)
  have d2: "distinct (map fst (trim_points mp n ?h1))"
    using d1 by (simp add: trim_points_def distinct_update)
  show ?thesis
    unfolding hist_inv_def using d2 by (simp add: h2 m)
qed

lemma hist_inv_keys:
  assumes "hist_inv mp L hist"
  shows "set (map fst hist) = {n. L n \<noteq> []}"
proof -
  have "n \<in> set (map fst hist) \<longleftrightarrow> L n \<noteq> []" for n
  proof -
    have "n \<in> set (map fst hist) \<longleftrightarrow> map_of hist n \<noteq> None"
      by (simp add: map_of_eq_None_iff)
    then show ?thesis using assms by (simp add: hist_inv_def)
  qed
  then show ?thesis by blast
qed

section \<open>Sorted keys\<close>

lemma sorted_inputs_sorted: "sorted sorted_inputs \<and> distinct sorted_inputs \<and> set sorted_inputs = inputs"
  by (simp add: sorted_inputs_def inputs_def)

lemma keys_sorted:
  assumes "distinct ks" and "set ks = {n. L n \<noteq> []}" and "log_known L"
  shows "sort ks = streams_with_data L"
proof (rule sorted_distinct_set_unique)
  show "sorted (sort ks)" by simp
  show "distinct (sort ks)" using assms(1) by simp
  show "sorted (streams_with_data L)"
    unfolding streams_with_data_def using sorted_inputs_sorted by (simp add: sorted_filter [of "\<lambda>x. x", simplified])
  show "distinct (streams_with_data L)"
    unfolding streams_with_data_def using sorted_inputs_sorted by simp
  show "set (sort ks) = set (streams_with_data L)"
    using assms(2,3) sorted_inputs_sorted
    by (auto simp: streams_with_data_def log_known_def)
qed

lemma map_insort_key: "map f (insort_key f x xs) = insort (f x) (map f xs)"
  by (induction xs) simp_all

lemma map_sort_key: "map f (sort_key f xs) = sort (map f xs)"
  by (induction xs) (simp_all add: map_insort_key)

lemma sorted_items_conv:
  assumes "distinct (map fst d)"
  shows "sorted_items d = map (\<lambda>k. (k, the (map_of d k))) (sort (map fst d))"
proof -
  have "map fst (sort_key fst d) = sort (map fst d)"
    by (rule map_sort_key)
  moreover have "map (\<lambda>kv. (fst kv, the (map_of d (fst kv)))) (sort_key fst d) = sort_key fst d"
  proof (rule map_idI)
    fix kv assume "kv \<in> set (sort_key fst d)"
    then have "kv \<in> set d" by simp
    then have "map_of d (fst kv) = Some (snd kv)"
      using assms by (simp add: map_of_eq_Some_iff)
    then show "(fst kv, the (map_of d (fst kv))) = kv" by simp
  qed
  moreover have "map (\<lambda>k. (k, the (map_of d k))) (map fst (sort_key fst d))
      = map (\<lambda>kv. (fst kv, the (map_of d (fst kv)))) (sort_key fst d)"
    by (simp add: comp_def)
  ultimately show ?thesis
    unfolding sorted_items_def by metis
qed


section \<open>The invariants of the reachable states\<close>

lemma loop_inv:
  assumes ok: "\<And>n sg s s' L. n \<in> inputs \<Longrightarrow> I L s \<Longrightarrow> ingest n sg s = Inr s' \<Longrightarrow>
                 \<exists>x. obs sg = Inr x \<and> I (L(n := L n @ [x])) s'"
    and err: "\<And>n sg s e. ingest n sg s = Inl e \<Longrightarrow> \<exists>e'. obs sg = Inl e'"
  shows "set names \<subseteq> inputs \<Longrightarrow> I L s \<Longrightarrow>
    I (arrival_log obs names signals L) (snd (ingest_loop ingest names signals s))"
proof (induction names arbitrary: L s)
  case Nil
  then show ?case by simp
next
  case (Cons n names)
  show ?case
  proof (cases "signals n")
    case None
    then show ?thesis using Cons by simp
  next
    case (Some sg)
    show ?thesis
    proof (cases "ingest n sg s")
      case (Inl e)
      then obtain e' where "obs sg = Inl e'" using err by blast
      then show ?thesis using Some Inl Cons.prems by simp
    next
      case (Inr s')
      obtain x where x: "obs sg = Inr x" and i: "I (L(n := L n @ [x])) s'"
        using ok [OF _ Cons.prems(2) Inr] Cons.prems(1) by auto
      have sub: "set names \<subseteq> inputs"
        using Cons.prems(1) by simp
      have "I (arrival_log obs names signals (L(n := L n @ [x])))
              (snd (ingest_loop ingest names signals s'))"
        by (rule Cons.IH [OF sub i])
      then show ?thesis using Some Inr x by simp
    qed
  qed
qed

lemma latest_inv_step:
  assumes "latest_inv L latest"
  shows "latest_inv (L(n := L n @ [(t, x)]))
           (AList.update n \<lparr>le_t = t, le_scalar = x, le_source = src\<rparr> latest)"
proof -
  have d: "distinct (map fst latest)"
    and m: "\<And>k. if L k = [] then map_of latest k = None
              else \<exists>e. map_of latest k = Some e \<and> (le_t e, le_scalar e) = last (L k)"
    using assms unfolding latest_inv_def by blast+
  let ?e = "\<lparr>le_t = t, le_scalar = x, le_source = src\<rparr>"
  have "if (L(n := L n @ [(t, x)])) k = [] then map_of (AList.update n ?e latest) k = None
        else \<exists>e. map_of (AList.update n ?e latest) k = Some e
               \<and> (le_t e, le_scalar e) = last ((L(n := L n @ [(t, x)])) k)" for k
  proof (cases "k = n")
    case True
    then show ?thesis by (simp add: update_conv')
  next
    case False
    then show ?thesis using m [of k] by (simp add: update_conv')
  qed
  moreover have "distinct (map fst (AList.update n ?e latest))"
    using d by (rule distinct_update)
  ultimately show ?thesis
    unfolding latest_inv_def by blast
qed

lemma cmp_ingest_inv:
  assumes "n \<in> inputs" and "cmp_inv L s" and "cmp_ingest n sg s = Inr s'"
  shows "\<exists>x. cmp_observation sg = Inr x \<and> cmp_inv (L(n := L n @ [x])) s'"
proof -
  obtain v where v: "scalar_projection (in_value sg) = Inr v"
    using assms(3) by (auto simp: cmp_ingest_def Let_def split: sum.splits)
  have s': "s' = s\<lparr>c_latest :=
                    AList.update n \<lparr>le_t = in_time sg, le_scalar = v, le_source = in_source sg\<rparr>
                      (c_latest s),
                 c_series :=
                    trim_points (c_max_points s) n (append_point n (in_time sg, v) (c_series s)),
                 c_last_t := max (c_last_t s) (in_time sg)\<rparr>"
    using assms(3) v by (simp add: cmp_ingest_def Let_def)
  have "log_known (L(n := L n @ [(in_time sg, v)]))"
    using assms(1,2) by (simp add: cmp_inv_def log_known_def)
  moreover have "hist_inv (c_max_points s') (L(n := L n @ [(in_time sg, v)])) (c_series s')"
    using assms(2) by (simp add: s' cmp_inv_def hist_inv_step)
  moreover have "latest_inv (L(n := L n @ [(in_time sg, v)])) (c_latest s')"
    using assms(2) by (simp add: s' cmp_inv_def latest_inv_step)
  ultimately show ?thesis
    by (simp add: cmp_observation_def v cmp_inv_def)
qed

lemma cmp_ingest_err: "cmp_ingest n sg s = Inl e \<Longrightarrow> \<exists>e'. cmp_observation sg = Inl e'"
  by (auto simp: cmp_ingest_def cmp_observation_def Let_def split: sum.splits)

lemma met_ingest_inv:
  assumes "n \<in> inputs" and "met_inv L s" and "met_ingest n sg s = Inr s'"
  shows "\<exists>x. met_observation sg = Inr x \<and> met_inv (L(n := L n @ [x])) s'"
proof -
  obtain v where v: "extract_scalar (in_value sg) = Inr v"
    using assms(3) by (auto simp: met_ingest_def split: sum.splits)
  have s': "s' = s\<lparr>m_history :=
                    trim_points (m_max_points s) n (append_point n v (m_history s)),
                 m_latest_t := max (m_latest_t s) (in_time sg)\<rparr>"
    using assms(3) v by (simp add: met_ingest_def)
  have "log_known (L(n := L n @ [v]))"
    using assms(1,2) by (simp add: met_inv_def log_known_def)
  moreover have "hist_inv (m_max_points s') (L(n := L n @ [v])) (m_history s')"
    using assms(2) by (simp add: s' met_inv_def hist_inv_step)
  ultimately show ?thesis
    by (simp add: met_observation_def v met_inv_def)
qed

lemma met_ingest_err: "met_ingest n sg s = Inl e \<Longrightarrow> \<exists>e'. met_observation sg = Inl e'"
  by (auto simp: met_ingest_def met_observation_def split: sum.splits)

lemma cmp_set_inputs_inv:
  "cmp_inv L s \<Longrightarrow>
   cmp_inv (arrival_log cmp_observation sorted_inputs signals L) (snd (cmp_set_inputs signals s))"
  unfolding cmp_set_inputs_def
  by (rule loop_inv [where I = cmp_inv, OF cmp_ingest_inv cmp_ingest_err])
     (simp_all add: sorted_inputs_sorted)

lemma met_set_inputs_inv:
  "met_inv L s \<Longrightarrow>
   met_inv (arrival_log met_observation sorted_inputs signals L) (snd (met_set_inputs signals s))"
  unfolding met_set_inputs_def
  by (rule loop_inv [where I = met_inv, OF met_ingest_inv met_ingest_err])
     (simp_all add: sorted_inputs_sorted)

lemma cmp_reach_inv: "cmp_reach L s \<Longrightarrow> cmp_inv L s"
proof (induction rule: cmp_reach.induct)
  case (cmp_reach_init max_points min_dt)
  show ?case
    by (simp add: cmp_inv_def cmp_init_def log_known_def hist_inv_empty latest_inv_def)
next
  case (cmp_reach_reset L s)
  show ?case
    by (simp add: cmp_inv_def cmp_reset_def log_known_def hist_inv_empty latest_inv_def)
next
  case (cmp_reach_set_inputs L s signals)
  then show ?case by (simp add: cmp_set_inputs_inv)
next
  case (cmp_reach_advance L s t)
  then show ?case by (simp add: cmp_inv_def cmp_advance_to_def Let_def)
next
  case (cmp_reach_named L s w)
  then show ?case by (simp add: cmp_inv_def)
qed

lemma met_reach_inv: "met_reach L s \<Longrightarrow> met_inv L s"
proof (induction rule: met_reach.induct)
  case (met_reach_init max_points min_dt)
  show ?case
    by (simp add: met_inv_def met_init_def log_known_def hist_inv_empty)
next
  case (met_reach_reset L s)
  show ?case
    by (simp add: met_inv_def met_reset_def log_known_def hist_inv_empty)
next
  case (met_reach_set_inputs L s signals)
  then show ?case by (simp add: met_set_inputs_inv)
next
  case (met_reach_advance L s t)
  then show ?case by (simp add: met_inv_def met_advance_to_def Let_def)
next
  case (met_reach_named L s w)
  then show ?case by (simp add: met_inv_def)
qed

text \<open>A sequence of calls on a new monitor is a reachable state, with its log.\<close>

lemma cmp_reach_fold:
  "cmp_reach L s \<Longrightarrow>
   cmp_reach (fold (arrival_log cmp_observation sorted_inputs) calls L) (cmp_run calls s)"
proof (induction calls arbitrary: L s)
  case Nil
  then show ?case by (simp add: cmp_run_def)
next
  case (Cons c calls)
  have "cmp_reach (arrival_log cmp_observation sorted_inputs c L) (snd (cmp_set_inputs c s))"
    using Cons.prems by (rule cmp_reach_set_inputs)
  then have "cmp_reach (fold (arrival_log cmp_observation sorted_inputs) calls
                (arrival_log cmp_observation sorted_inputs c L))
              (cmp_run calls (snd (cmp_set_inputs c s)))"
    by (rule Cons.IH)
  then show ?case by (simp add: cmp_run_def)
qed

lemma cmp_reach_run: "cmp_reach (cmp_log calls) (cmp_run calls (cmp_init mp dt))"
  unfolding cmp_log_def by (rule cmp_reach_fold [OF cmp_reach_init])

lemma met_reach_fold:
  "met_reach L s \<Longrightarrow>
   met_reach (fold (arrival_log met_observation sorted_inputs) calls L) (met_run calls s)"
proof (induction calls arbitrary: L s)
  case Nil
  then show ?case by (simp add: met_run_def)
next
  case (Cons c calls)
  have "met_reach (arrival_log met_observation sorted_inputs c L) (snd (met_set_inputs c s))"
    using Cons.prems by (rule met_reach_set_inputs)
  then have "met_reach (fold (arrival_log met_observation sorted_inputs) calls
                (arrival_log met_observation sorted_inputs c L))
              (met_run calls (snd (met_set_inputs c s)))"
    by (rule Cons.IH)
  then show ?case by (simp add: met_run_def)
qed

lemma met_reach_run: "met_reach (met_log calls) (met_run calls (met_init mp dt))"
  unfolding met_log_def by (rule met_reach_fold [OF met_reach_init])

lemma hist_inv_bounded:
  assumes "hist_inv mp L hist" and "0 < mp"
  shows "(\<forall>n pts. map_of hist n = Some pts \<longrightarrow> int (length pts) \<le> mp)
    \<and> (\<forall>n. mp < int (length (L n)) \<longrightarrow>
          map_of hist n = Some (drop (length (L n) - nat mp) (L n))
          \<and> int (length (drop (length (L n) - nat mp) (L n))) = mp)"
proof (intro conjI allI impI)
  fix n pts assume "map_of hist n = Some pts"
  then have "pts = window mp (L n)"
    using assms(1) by (auto simp: hist_inv_def split: if_splits)
  then show "int (length pts) \<le> mp"
    using window_length [OF assms(2)] by simp
next
  fix n assume big: "mp < int (length (L n))"
  then have "L n \<noteq> []" using assms(2) by auto
  then have "map_of hist n = Some (window mp (L n))"
    using assms(1) by (simp add: hist_inv_def)
  then show "map_of hist n = Some (drop (length (L n) - nat mp) (L n))"
    using window_full [OF assms(2) big] by simp
  show "int (length (drop (length (L n) - nat mp) (L n))) = mp"
    by (metis window_full [OF assms(2) big])
qed


lemmas log_defs =
  cmp_log_def met_log_def cmp_observation_def met_observation_def sorted_inputs_eq
  scalar_projection_def extract_scalar_def mean_def sig_def

lemma three_updates_cmp:
  "c_series (cmp_run three_updates (cmp_init 2 1)) = [(''state_a'', [(2, 2), (3, 3)])]
   \<and> c_max_points (cmp_run three_updates (cmp_init 2 1)) = 2
   \<and> cmp_log three_updates ''state_a'' = [(1, 1), (2, 2), (3, 3)]"
  by (simp add: cmp_run_def three_updates_def eval_defs log_defs)

lemma three_updates_met:
  "m_history (met_run three_updates (met_init 2 1)) = [(''state_a'', [2, 3])]
   \<and> m_max_points (met_run three_updates (met_init 2 1)) = 2
   \<and> met_log three_updates ''state_a'' = [1, 2, 3]"
  by (simp add: met_run_def three_updates_def eval_defs log_defs)

text \<open>
  Claim C2: with a positive capacity \<open>max_points\<close> (the specification's construction
  parameter is a positive integer), in every reachable state of either monitor every
  per-stream history has at most \<open>max_points\<close> entries; and a stream to which more than
  \<open>max_points\<close> observations were delivered since the construction or the last reset
  holds exactly the last \<open>max_points\<close> of them, in the order of arrival.
\<close>

theorem history_bounded:
  "(cmp_reach L s \<and> 0 < c_max_points s \<longrightarrow>
      (\<forall>n pts. map_of (c_series s) n = Some pts \<longrightarrow> int (length pts) \<le> c_max_points s)
      \<and> (\<forall>n. c_max_points s < int (length (L n)) \<longrightarrow>
            map_of (c_series s) n = Some (drop (length (L n) - nat (c_max_points s)) (L n))
            \<and> int (length (drop (length (L n) - nat (c_max_points s)) (L n))) = c_max_points s))
   \<and> (met_reach M u \<and> 0 < m_max_points u \<longrightarrow>
      (\<forall>n vals. map_of (m_history u) n = Some vals \<longrightarrow> int (length vals) \<le> m_max_points u)
      \<and> (\<forall>n. m_max_points u < int (length (M n)) \<longrightarrow>
            map_of (m_history u) n = Some (drop (length (M n) - nat (m_max_points u)) (M n))
            \<and> int (length (drop (length (M n) - nat (m_max_points u)) (M n))) = m_max_points u))"
proof -
  have c: "(\<forall>n pts. map_of (c_series s) n = Some pts \<longrightarrow> int (length pts) \<le> c_max_points s)
      \<and> (\<forall>n. c_max_points s < int (length (L n)) \<longrightarrow>
            map_of (c_series s) n = Some (drop (length (L n) - nat (c_max_points s)) (L n))
            \<and> int (length (drop (length (L n) - nat (c_max_points s)) (L n))) = c_max_points s)"
    if "cmp_reach L s \<and> 0 < c_max_points s"
  proof -
    have "hist_inv (c_max_points s) L (c_series s)" and "0 < c_max_points s"
      using that cmp_reach_inv [of L s] by (simp_all add: cmp_inv_def)
    then show ?thesis by (rule hist_inv_bounded)
  qed
  have m: "(\<forall>n vals. map_of (m_history u) n = Some vals \<longrightarrow> int (length vals) \<le> m_max_points u)
      \<and> (\<forall>n. m_max_points u < int (length (M n)) \<longrightarrow>
            map_of (m_history u) n = Some (drop (length (M n) - nat (m_max_points u)) (M n))
            \<and> int (length (drop (length (M n) - nat (m_max_points u)) (M n))) = m_max_points u)"
    if "met_reach M u \<and> 0 < m_max_points u"
  proof -
    have "hist_inv (m_max_points u) M (m_history u)" and "0 < m_max_points u"
      using that met_reach_inv [of M u] by (simp_all add: met_inv_def)
    then show ?thesis by (rule hist_inv_bounded)
  qed
  show ?thesis
    using c m by blast
qed

theorem history_bounded_witness:
  "cmp_reach (cmp_log three_updates) (cmp_run three_updates (cmp_init 2 1))
   \<and> 0 < c_max_points (cmp_run three_updates (cmp_init 2 1))
   \<and> c_max_points (cmp_run three_updates (cmp_init 2 1)) < int (length (cmp_log three_updates ''state_a''))
   \<and> map_of (c_series (cmp_run three_updates (cmp_init 2 1))) ''state_a'' = Some [(2, 2), (3, 3)]
   \<and> met_reach (met_log three_updates) (met_run three_updates (met_init 2 1))
   \<and> 0 < m_max_points (met_run three_updates (met_init 2 1))
   \<and> m_max_points (met_run three_updates (met_init 2 1)) < int (length (met_log three_updates ''state_a''))
   \<and> map_of (m_history (met_run three_updates (met_init 2 1))) ''state_a'' = Some [2, 3]"
proof -
  have c: "cmp_reach (cmp_log three_updates) (cmp_run three_updates (cmp_init 2 1))"
    by (rule cmp_reach_run)
  have m: "met_reach (met_log three_updates) (met_run three_updates (met_init 2 1))"
    by (rule met_reach_run)
  have "map_of (c_series (cmp_run three_updates (cmp_init 2 1))) ''state_a''
          = Some (drop (length (cmp_log three_updates ''state_a'') - nat 2) (cmp_log three_updates ''state_a''))
      \<and> map_of (m_history (met_run three_updates (met_init 2 1))) ''state_a''
          = Some (drop (length (met_log three_updates ''state_a'') - nat 2) (met_log three_updates ''state_a''))"
    using history_bounded [of "cmp_log three_updates" "cmp_run three_updates (cmp_init 2 1)"
        "met_log three_updates" "met_run three_updates (met_init 2 1)"] c m
    by (simp add: three_updates_cmp three_updates_met)
  then show ?thesis
    using c m by (simp add: three_updates_cmp three_updates_met)
qed

text \<open>
  The capacity must be positive for the bound: at capacity 0 the test \<open>len > 0\<close> holds
  after every append and the slice \<open>[-0:]\<close> keeps the whole list.
\<close>

lemma capacity_zero_keeps_all:
  "c_series (cmp_run three_updates (cmp_init 0 1)) = [(''state_a'', [(1, 1), (2, 2), (3, 3)])]
   \<and> m_history (met_run three_updates (met_init 0 1)) = [(''state_a'', [1, 2, 3])]"
  by (simp add: cmp_run_def met_run_def three_updates_def eval_defs)


section \<open>The copy returned by \<open>get_outputs\<close>\<close>

lemma loop_frame:
  assumes step: "\<And>n sg s s'. ingest n sg s = Inr s' \<Longrightarrow> f s' = f s"
  shows "f (snd (ingest_loop ingest names signals s)) = f s"
proof (induction names arbitrary: s)
  case Nil
  show ?case by simp
next
  case (Cons n names)
  show ?case
  proof (cases "signals n")
    case None
    then show ?thesis using Cons by simp
  next
    case (Some sg)
    show ?thesis
    proof (cases "ingest n sg s")
      case (Inl e)
      then show ?thesis using Some by simp
    next
      case (Inr s')
      then show ?thesis using Some Cons [of s'] step [OF Inr] by simp
    qed
  qed
qed

lemma cmp_set_inputs_outputs: "c_outputs (snd (cmp_set_inputs signals s)) = c_outputs s"
  unfolding cmp_set_inputs_def
  by (rule loop_frame) (auto simp: cmp_ingest_def Let_def split: sum.splits)

lemma met_set_inputs_outputs: "m_outputs (snd (met_set_inputs signals s)) = m_outputs s"
  unfolding met_set_inputs_def
  by (rule loop_frame) (auto simp: met_ingest_def split: sum.splits)

lemma cmp_run_outputs: "c_outputs (cmp_run calls s) = c_outputs s"
  by (induction calls arbitrary: s) (simp_all add: cmp_run_def cmp_set_inputs_outputs)

lemma met_run_outputs: "m_outputs (met_run calls s) = m_outputs s"
  by (induction calls arbitrary: s) (simp_all add: met_run_def met_set_inputs_outputs)

lemma mutate_other: "a \<noteq> b \<Longrightarrow> cells (mutate a opn h) b = cells h b"
  by (simp add: mutate_def split: option.splits)

lemma mutate_next: "next_addr (mutate a opn h) = next_addr h"
  by (simp add: mutate_def split: option.splits)

lemma mutate_dom: "dom (cells (mutate a opn h)) = dom (cells h)"
  by (auto simp: mutate_def split: option.splits if_splits)

lemma mutate_ok: "store_ok h \<Longrightarrow> store_ok (mutate a opn h)"
  by (simp add: store_ok_def mutate_dom mutate_next)

lemma fold_mutate_other: "a \<noteq> b \<Longrightarrow> cells (fold (mutate a) ops h) b = cells h b"
  by (induction ops arbitrary: h) (simp_all add: mutate_other)

lemma fold_mutate_ok: "store_ok h \<Longrightarrow> store_ok (fold (mutate a) ops h)"
  by (induction ops arbitrary: h) (simp_all add: mutate_ok)

lemma get_outputs_ref_fresh:
  assumes "store_ok h" and "cells h self = Some d"
  shows "fst (get_outputs_ref self h) \<noteq> self"
    and "cells (snd (get_outputs_ref self h)) (fst (get_outputs_ref self h)) = Some d"
    and "cells (snd (get_outputs_ref self h)) self = Some d"
    and "store_ok (snd (get_outputs_ref self h))"
proof -
  have "self \<in> dom (cells h)" using assms(2) by blast
  then have lt: "self < next_addr h" using assms(1) by (simp add: store_ok_def)
  then show "fst (get_outputs_ref self h) \<noteq> self"
    by (simp add: get_outputs_ref_def alloc_dict_def)
  show "cells (snd (get_outputs_ref self h)) (fst (get_outputs_ref self h)) = Some d"
    by (simp add: get_outputs_ref_def alloc_dict_def assms(2))
  show "cells (snd (get_outputs_ref self h)) self = Some d"
    using lt by (simp add: get_outputs_ref_def alloc_dict_def assms(2))
  show "store_ok (snd (get_outputs_ref self h))"
    using assms(1) by (auto simp: get_outputs_ref_def alloc_dict_def store_ok_def)
qed

lemma get_outputs_ref_independent:
  assumes "store_ok h" and "cells h self = Some d"
  shows "fst (get_outputs_ref self h) \<noteq> self
    \<and> cells (snd (get_outputs_ref self h)) (fst (get_outputs_ref self h)) = Some d
    \<and> cells (fold (mutate (fst (get_outputs_ref self h))) ops (snd (get_outputs_ref self h))) self
        = Some d
    \<and> cells (snd (get_outputs_ref self
                (fold (mutate (fst (get_outputs_ref self h))) ops (snd (get_outputs_ref self h)))))
          (fst (get_outputs_ref self
                (fold (mutate (fst (get_outputs_ref self h))) ops (snd (get_outputs_ref self h)))))
        = Some d"
proof -
  let ?r = "fst (get_outputs_ref self h)" and ?h1 = "snd (get_outputs_ref self h)"
  let ?h2 = "fold (mutate ?r) ops ?h1"
  note f = get_outputs_ref_fresh [OF assms]
  have kept: "cells ?h2 self = Some d"
    using f(1,3) by (simp add: fold_mutate_other)
  have ok2: "store_ok ?h2"
    using f(4) by (rule fold_mutate_ok)
  have "cells (snd (get_outputs_ref self ?h2)) (fst (get_outputs_ref self ?h2)) = Some d"
    by (rule get_outputs_ref_fresh(2) [OF ok2 kept])
  then show ?thesis
    using f(1,2) kept by blast
qed

text \<open>
  Claim C9: \<open>get_outputs()\<close> returns a new dict with the entries of the stored snapshot
  map.  Whatever the caller then does to the returned dict (setting, removing, clearing
  entries), the dict the monitor stores keeps its entries, and a later \<open>get_outputs()\<close>
  returns those entries again.  From the construction or a reset until the first
  advance, whatever is ingested meanwhile, \<open>get_outputs()\<close> returns the empty map.
\<close>

theorem get_outputs_is_copy:
  "(store_ok h \<and> cells h self = Some (c_outputs s) \<longrightarrow>
      fst (get_outputs_ref self h) \<noteq> self
      \<and> cells (snd (get_outputs_ref self h)) (fst (get_outputs_ref self h)) = Some (cmp_get_outputs s)
      \<and> cells (fold (mutate (fst (get_outputs_ref self h))) ops (snd (get_outputs_ref self h))) self
          = Some (c_outputs s)
      \<and> cells (snd (get_outputs_ref self
                  (fold (mutate (fst (get_outputs_ref self h))) ops (snd (get_outputs_ref self h)))))
            (fst (get_outputs_ref self
                  (fold (mutate (fst (get_outputs_ref self h))) ops (snd (get_outputs_ref self h)))))
          = Some (cmp_get_outputs s))
   \<and> (store_ok g \<and> cells g self = Some (m_outputs u) \<longrightarrow>
      fst (get_outputs_ref self g) \<noteq> self
      \<and> cells (snd (get_outputs_ref self g)) (fst (get_outputs_ref self g)) = Some (met_get_outputs u)
      \<and> cells (fold (mutate (fst (get_outputs_ref self g))) mops (snd (get_outputs_ref self g))) self
          = Some (m_outputs u)
      \<and> cells (snd (get_outputs_ref self
                  (fold (mutate (fst (get_outputs_ref self g))) mops (snd (get_outputs_ref self g)))))
            (fst (get_outputs_ref self
                  (fold (mutate (fst (get_outputs_ref self g))) mops (snd (get_outputs_ref self g)))))
          = Some (met_get_outputs u))
   \<and> cmp_get_outputs (cmp_run calls (cmp_init mp dt)) = []
   \<and> cmp_get_outputs (cmp_run calls (cmp_reset s)) = []
   \<and> met_get_outputs (met_run calls (met_init mp dt)) = []
   \<and> met_get_outputs (met_run calls (met_reset u)) = []"
proof -
  have c: "fst (get_outputs_ref self h) \<noteq> self
      \<and> cells (snd (get_outputs_ref self h)) (fst (get_outputs_ref self h)) = Some (cmp_get_outputs s)
      \<and> cells (fold (mutate (fst (get_outputs_ref self h))) ops (snd (get_outputs_ref self h))) self
          = Some (c_outputs s)
      \<and> cells (snd (get_outputs_ref self
                  (fold (mutate (fst (get_outputs_ref self h))) ops (snd (get_outputs_ref self h)))))
            (fst (get_outputs_ref self
                  (fold (mutate (fst (get_outputs_ref self h))) ops (snd (get_outputs_ref self h)))))
          = Some (cmp_get_outputs s)"
    if "store_ok h \<and> cells h self = Some (c_outputs s)"
    unfolding cmp_get_outputs_def
    using get_outputs_ref_independent [of h self "c_outputs s" ops] that by blast
  have m: "fst (get_outputs_ref self g) \<noteq> self
      \<and> cells (snd (get_outputs_ref self g)) (fst (get_outputs_ref self g)) = Some (met_get_outputs u)
      \<and> cells (fold (mutate (fst (get_outputs_ref self g))) mops (snd (get_outputs_ref self g))) self
          = Some (m_outputs u)
      \<and> cells (snd (get_outputs_ref self
                  (fold (mutate (fst (get_outputs_ref self g))) mops (snd (get_outputs_ref self g)))))
            (fst (get_outputs_ref self
                  (fold (mutate (fst (get_outputs_ref self g))) mops (snd (get_outputs_ref self g)))))
          = Some (met_get_outputs u)"
    if "store_ok g \<and> cells g self = Some (m_outputs u)"
    unfolding met_get_outputs_def
    using get_outputs_ref_independent [of g self "m_outputs u" mops] that by blast
  have e: "cmp_get_outputs (cmp_run calls (cmp_init mp dt)) = []"
    "cmp_get_outputs (cmp_run calls (cmp_reset s)) = []"
    "met_get_outputs (met_run calls (met_init mp dt)) = []"
    "met_get_outputs (met_run calls (met_reset u)) = []"
    by (simp_all add: cmp_get_outputs_def met_get_outputs_def cmp_run_outputs met_run_outputs
        cmp_init_def cmp_reset_def met_init_def met_reset_def)
  show ?thesis
    using c m e by blast
qed

theorem get_outputs_is_copy_witness:
  "store_ok \<lparr>cells = [0 \<mapsto> c_outputs (cmp_scenario 10 1)], next_addr = 1\<rparr>
   \<and> cells \<lparr>cells = [0 \<mapsto> c_outputs (cmp_scenario 10 1)], next_addr = 1\<rparr> 0
        = Some (c_outputs (cmp_scenario 10 1))
   \<and> fst (get_outputs_ref 0 \<lparr>cells = [0 \<mapsto> c_outputs (cmp_scenario 10 1)], next_addr = 1\<rparr>) = 1
   \<and> cells (fold (mutate 1) [PopItem ''comparison_state'', Clear]
        (snd (get_outputs_ref 0 \<lparr>cells = [0 \<mapsto> c_outputs (cmp_scenario 10 1)], next_addr = 1\<rparr>))) 1
        = Some []
   \<and> cells (fold (mutate 1) [PopItem ''comparison_state'', Clear]
        (snd (get_outputs_ref 0 \<lparr>cells = [0 \<mapsto> c_outputs (cmp_scenario 10 1)], next_addr = 1\<rparr>))) 0
        = Some (c_outputs (cmp_scenario 10 1))
   \<and> store_ok \<lparr>cells = [0 \<mapsto> m_outputs (met_scenario 10 1)], next_addr = 1\<rparr>
   \<and> cells \<lparr>cells = [0 \<mapsto> m_outputs (met_scenario 10 1)], next_addr = 1\<rparr> 0
        = Some (m_outputs (met_scenario 10 1))
   \<and> cells (fold (mutate 1) [Clear]
        (snd (get_outputs_ref 0 \<lparr>cells = [0 \<mapsto> m_outputs (met_scenario 10 1)], next_addr = 1\<rparr>))) 0
        = Some (m_outputs (met_scenario 10 1))"
proof -
  let ?hc = "\<lparr>cells = [0 \<mapsto> c_outputs (cmp_scenario 10 1)], next_addr = 1\<rparr>"
  let ?hm = "\<lparr>cells = [0 \<mapsto> m_outputs (met_scenario 10 1)], next_addr = 1\<rparr>"
  have okc: "store_ok ?hc" and okm: "store_ok ?hm"
    by (auto simp: store_ok_def)
  have atc: "cells ?hc 0 = Some (c_outputs (cmp_scenario 10 1))"
    and atm: "cells ?hm 0 = Some (m_outputs (met_scenario 10 1))"
    by simp_all
  have r: "fst (get_outputs_ref 0 ?hc) = 1"
    by (simp add: get_outputs_ref_def alloc_dict_def)
  have cl: "cells (fold (mutate 1) [PopItem ''comparison_state'', Clear]
        (snd (get_outputs_ref 0 ?hc))) 1 = Some []"
    by (simp add: get_outputs_ref_def alloc_dict_def mutate_def)
  have rm: "fst (get_outputs_ref 0 ?hm) = 1"
    by (simp add: get_outputs_ref_def alloc_dict_def)
  note t = get_outputs_is_copy
      [of ?hc 0 "cmp_scenario 10 1" "[PopItem ''comparison_state'', Clear]"
          ?hm "met_scenario 10 1" "[Clear]" "[]" 10 1]
  have keptc: "cells (fold (mutate 1) [PopItem ''comparison_state'', Clear]
        (snd (get_outputs_ref 0 ?hc))) 0 = Some (c_outputs (cmp_scenario 10 1))"
    using t okc atc unfolding r by blast
  have keptm: "cells (fold (mutate 1) [Clear] (snd (get_outputs_ref 0 ?hm))) 0
        = Some (m_outputs (met_scenario 10 1))"
    using t okm atm unfolding rm by blast
  show ?thesis
    using okc atc r cl keptc okm atm keptm by blast
qed


section \<open>Dicts built by insertion\<close>

lemma update_fresh: "k \<notin> fst ` set d \<Longrightarrow> AList.update k v d = d @ [(k, v)]"
  by (induction d) auto

lemma foldl_update_fresh:
  "distinct (map fst d @ map g xs) \<Longrightarrow>
   foldl (\<lambda>d x. AList.update (g x) (h x) d) d xs = d @ map (\<lambda>x. (g x, h x)) xs"
proof (induction xs arbitrary: d)
  case Nil
  show ?case by simp
next
  case (Cons x xs)
  have fresh: "g x \<notin> fst ` set d"
    using Cons.prems by auto
  have "distinct (map fst (d @ [(g x, h x)]) @ map g xs)"
    using Cons.prems by auto
  then have "foldl (\<lambda>d x. AList.update (g x) (h x) d) (d @ [(g x, h x)]) xs
      = (d @ [(g x, h x)]) @ map (\<lambda>x. (g x, h x)) xs"
    by (rule Cons.IH)
  then show ?case
    by (simp add: update_fresh [OF fresh])
qed

lemma py_dict_distinct: "distinct (map fst items) \<Longrightarrow> py_dict items = items"
proof -
  assume d: "distinct (map fst items)"
  have "py_dict items = foldl (\<lambda>d x. AList.update (fst x) (snd x) d) [] items"
    by (simp add: py_dict_def case_prod_unfold)
  also have "\<dots> = [] @ map (\<lambda>x. (fst x, snd x)) items"
    by (rule foldl_update_fresh) (simp add: d)
  finally show ?thesis by simp
qed

section \<open>Ordered pairs and the keys of the deltas\<close>

lemma set_ordered_pairs_subset: "set (ordered_pairs xs) \<subseteq> set xs \<times> set xs"
  by (induction xs) auto

lemma distinct_ordered_pairs: "distinct xs \<Longrightarrow> distinct (ordered_pairs xs)"
proof (induction xs)
  case Nil
  show ?case by simp
next
  case (Cons x xs)
  have "distinct (map (Pair x) xs)"
    using Cons.prems by (simp add: distinct_map inj_on_def)
  moreover have "set (map (Pair x) xs) \<inter> set (ordered_pairs xs) = {}"
    using Cons.prems set_ordered_pairs_subset [of xs] by auto
  ultimately show ?case
    using Cons by simp
qed

lemma set_ordered_pairs_sorted:
  fixes xs :: "'a::linorder list"
  assumes "sorted xs" and "distinct xs"
  shows "(l, r) \<in> set (ordered_pairs xs) \<longleftrightarrow> l \<in> set xs \<and> r \<in> set xs \<and> l < r"
  using assms
proof (induction xs)
  case Nil
  show ?case by simp
next
  case (Cons x xs)
  have lt: "\<And>y. y \<in> set xs \<Longrightarrow> x < y"
    using Cons.prems by (auto simp: order_less_le)
  have ih: "(l, r) \<in> set (ordered_pairs xs) \<longleftrightarrow> l \<in> set xs \<and> r \<in> set xs \<and> l < r"
    using Cons by simp
  show ?case
    using lt ih by (auto dest: lt)
qed

lemma inputs_length: "n \<in> inputs \<Longrightarrow> length n = 7"
  by (auto simp: inputs_def)

lemma delta_key_inj:
  assumes "a \<in> inputs" and "c \<in> inputs" and "delta_key a b = delta_key c d"
  shows "a = c \<and> b = d"
proof -
  have "length a = length c"
    using assms(1,2) by (simp add: inputs_length)
  then show ?thesis
    using assms(3) by (simp add: delta_key_def)
qed

lemma delta_keys_distinct:
  assumes "distinct xs" and "set xs \<subseteq> inputs"
  shows "distinct (map (\<lambda>(l, r). delta_key l r) (ordered_pairs xs))"
proof -
  have "inj_on (\<lambda>(l, r). delta_key l r) (set (ordered_pairs xs))"
  proof (rule inj_onI)
    fix p q
    assume p: "p \<in> set (ordered_pairs xs)" and q: "q \<in> set (ordered_pairs xs)"
      and e: "(case p of (l, r) \<Rightarrow> delta_key l r) = (case q of (l, r) \<Rightarrow> delta_key l r)"
    have sub: "\<And>z. z \<in> set (ordered_pairs xs) \<Longrightarrow> fst z \<in> inputs"
      using set_ordered_pairs_subset [of xs] assms(2) by (auto simp: subset_iff)
    have "fst p \<in> inputs" "fst q \<in> inputs"
      using p q by (simp_all add: sub)
    then have "fst p = fst q \<and> snd p = snd q"
      using e by (intro delta_key_inj) (simp_all add: case_prod_unfold)
    then show "p = q" by (simp add: prod_eq_iff)
  qed
  then show ?thesis
    using distinct_ordered_pairs [OF assms(1)] by (simp add: distinct_map)
qed

lemma deltas_loop_pairs:
  "distinct (map fst d @ map (\<lambda>(l, r). delta_key l r) (ordered_pairs xs)) \<Longrightarrow>
   deltas_loop lv xs d
     = d @ map (\<lambda>(l, r). (delta_key l r, the (map_of lv l) - the (map_of lv r))) (ordered_pairs xs)"
proof (induction xs arbitrary: d)
  case Nil
  show ?case by simp
next
  case (Cons x xs)
  let ?row = "map (\<lambda>r. (delta_key x r, the (map_of lv x) - the (map_of lv r))) xs"
  have inner: "foldl (\<lambda>d right. AList.update (delta_key x right)
                   (the (map_of lv x) - the (map_of lv right)) d) d xs = d @ ?row"
    using Cons.prems by (intro foldl_update_fresh) (auto simp: comp_def)
  have "distinct (map fst (d @ ?row) @ map (\<lambda>(l, r). delta_key l r) (ordered_pairs xs))"
    using Cons.prems by (auto simp: comp_def)
  then have "deltas_loop lv xs (d @ ?row)
      = (d @ ?row) @ map (\<lambda>(l, r). (delta_key l r, the (map_of lv l) - the (map_of lv r)))
                       (ordered_pairs xs)"
    by (rule Cons.IH)
  then show ?case
    by (simp add: inner comp_def)
qed


section \<open>The snapshot of the comparison monitor\<close>

lemma streams_with_data_props:
  "sorted (streams_with_data L) \<and> distinct (streams_with_data L)
   \<and> set (streams_with_data L) = {n \<in> inputs. L n \<noteq> []}"
  unfolding streams_with_data_def using sorted_inputs_sorted
  by (auto simp: sorted_filter [of "\<lambda>x. x", simplified])

lemma streams_with_data_set: "log_known L \<Longrightarrow> set (streams_with_data L) = {n. L n \<noteq> []}"
  using streams_with_data_props [of L] by (auto simp: log_known_def)

lemma streams_with_data_card:
  "log_known L \<Longrightarrow> length (streams_with_data L) = card {n. L n \<noteq> []}"
  using streams_with_data_props [of L] streams_with_data_set [of L]
  by (metis distinct_card)

lemma streams_with_data_Nil: "log_known L \<Longrightarrow> streams_with_data L = [] \<longleftrightarrow> (\<forall>n. L n = [])"
  using streams_with_data_set [of L] by (metis (mono_tags, lifting) Collect_empty_eq set_empty)

lemma latest_inv_keys:
  assumes "latest_inv L latest"
  shows "set (map fst latest) = {n. L n \<noteq> []}"
proof -
  have "n \<in> set (map fst latest) \<longleftrightarrow> L n \<noteq> []" for n
  proof -
    have a: "n \<in> set (map fst latest) \<longleftrightarrow> map_of latest n \<noteq> None"
      by (simp add: map_of_eq_None_iff)
    have "if L n = [] then map_of latest n = None
          else \<exists>e. map_of latest n = Some e \<and> (le_t e, le_scalar e) = last (L n)"
      using assms unfolding latest_inv_def by blast
    then show ?thesis unfolding a by (auto split: if_splits)
  qed
  then show ?thesis by blast
qed

lemma cmp_active_eq:
  assumes "cmp_inv L s"
  shows "cmp_active s = streams_with_data L"
proof -
  have li: "latest_inv L (c_latest s)" and lk: "log_known L"
    using assms by (simp_all add: cmp_inv_def)
  have "sort (map fst (c_latest s)) = streams_with_data L"
    using li lk latest_inv_keys [OF li] by (intro keys_sorted) (simp_all add: latest_inv_def)
  moreover have "filter (\<lambda>k. k \<in> inputs) (streams_with_data L) = streams_with_data L"
    using streams_with_data_props [of L] by (simp add: filter_id_conv)
  ultimately show ?thesis by (simp add: cmp_active_def)
qed

lemma cmp_latest_scalar:
  assumes "cmp_inv L s" and "L k \<noteq> []"
  shows "le_scalar (the (map_of (c_latest s) k)) = snd (last (L k))"
proof -
  have "if L k = [] then map_of (c_latest s) k = None
        else \<exists>e. map_of (c_latest s) k = Some e \<and> (le_t e, le_scalar e) = last (L k)"
    using assms(1) unfolding cmp_inv_def latest_inv_def by blast
  then obtain e where "map_of (c_latest s) k = Some e" "(le_t e, le_scalar e) = last (L k)"
    using assms(2) by auto
  then show ?thesis by (metis option.sel snd_conv)
qed

lemma map_of_graph: "k \<in> set ks \<Longrightarrow> the (map_of (map (\<lambda>k. (k, f k)) ks) k) = f k"
  by (induction ks) auto

lemma cmp_advance_snapshot:
  assumes "cmp_inv L s"
  shows "map (\<lambda>(k, sg). (k, latest_values (sg_value sg), pairwise_deltas (sg_value sg),
                          n_streams (sg_value sg)))
           (cmp_get_outputs (cmp_advance_to t s))
         = [(''comparison_state'',
             map (\<lambda>k. (k, snd (last (L k)))) (streams_with_data L),
             map (\<lambda>(l, r). (delta_key l r, snd (last (L l)) - snd (last (L r))))
               (ordered_pairs (streams_with_data L)),
             length (streams_with_data L))]"
proof -
  let ?act = "streams_with_data L"
  let ?lv = "map (\<lambda>k. (k, snd (last (L k)))) ?act"
  have p: "sorted ?act" "distinct ?act" "set ?act = {n \<in> inputs. L n \<noteq> []}"
    using streams_with_data_props [of L] by simp_all
  have e1: "map (\<lambda>k. (k, le_scalar (the (map_of (c_latest s) k)))) ?act = ?lv"
    using p(3) by (intro map_cong refl) (simp add: cmp_latest_scalar [OF assms])
  have "py_dict ?lv = ?lv"
    using p(2) by (intro py_dict_distinct) (simp add: comp_def)
  then have lv: "py_dict (map (\<lambda>k. (k, le_scalar (the (map_of (c_latest s) k)))) ?act) = ?lv"
    by (simp only: e1)
  have "distinct (map (\<lambda>(l, r). delta_key l r) (ordered_pairs ?act))"
    using p(2,3) by (intro delta_keys_distinct) auto
  then have "deltas_loop ?lv ?act []
      = [] @ map (\<lambda>(l, r). (delta_key l r, the (map_of ?lv l) - the (map_of ?lv r)))
               (ordered_pairs ?act)"
    by (intro deltas_loop_pairs) simp
  also have "\<dots> = map (\<lambda>(l, r). (delta_key l r, snd (last (L l)) - snd (last (L r))))
               (ordered_pairs ?act)"
  proof -
    have "\<And>z. z \<in> set (ordered_pairs ?act) \<Longrightarrow> fst z \<in> set ?act \<and> snd z \<in> set ?act"
      using set_ordered_pairs_subset [of ?act] by auto
    then show ?thesis
      by (auto simp: map_of_graph case_prod_unfold intro!: map_cong)
  qed
  finally have dl: "deltas_loop ?lv ?act []
      = map (\<lambda>(l, r). (delta_key l r, snd (last (L l)) - snd (last (L r)))) (ordered_pairs ?act)" .
  show ?thesis
    by (simp add: cmp_get_outputs_def cmp_advance_to_def Let_def cmp_active_eq [OF assms] lv dl)
qed

lemma cmp_scenario_snapshot:
  "map (\<lambda>(k, sg). (k, latest_values (sg_value sg), pairwise_deltas (sg_value sg),
                    n_streams (sg_value sg)))
     (cmp_get_outputs (cmp_scenario mp dt))
   = [(''comparison_state'', [(''state_a'', 15), (''state_b'', 6)],
       [(''state_a_minus_state_b'', 9)], 2)]"
  by (simp add: cmp_scenario_def cmp_get_outputs_def cmp_advance_to_def Let_def cmp_active_def
      inputs_def py_dict_def delta_key_def eval_defs)


lemma never_both_directions:
  assumes "log_known L" and "(l, r) \<in> set (ordered_pairs (streams_with_data L))"
  shows "delta_key r l \<notin> set (map (\<lambda>(l, r). delta_key l r) (ordered_pairs (streams_with_data L)))"
proof
  let ?act = "streams_with_data L"
  have p: "sorted ?act" "distinct ?act" "set ?act = {n \<in> inputs. L n \<noteq> []}"
    using streams_with_data_props [of L] by simp_all
  assume "delta_key r l \<in> set (map (\<lambda>(l, r). delta_key l r) (ordered_pairs ?act))"
  then obtain l' r' where q: "(l', r') \<in> set (ordered_pairs ?act)"
    and e: "delta_key r l = delta_key l' r'"
    by auto
  have lr: "l \<in> set ?act \<and> r \<in> set ?act \<and> l < r"
    using assms(2) set_ordered_pairs_sorted [OF p(1,2)] by simp
  have lr': "l' \<in> set ?act \<and> r' \<in> set ?act \<and> l' < r'"
    using q set_ordered_pairs_sorted [OF p(1,2)] by simp
  have "r \<in> inputs" "l' \<in> inputs"
    using lr lr' p(3) by simp_all
  then have "r = l' \<and> l = r'"
    using e by (rule delta_key_inj)
  then show False
    using lr lr' by (metis order_less_asym)
qed

text \<open>
  Claim C4: in every reachable state of the comparison monitor, \<open>advance_to(t)\<close> stores a
  snapshot in which \<open>latest_values\<close> maps each active stream (each stream with data, in
  lexical order) to the scalar of its latest observation; \<open>pairwise_deltas\<close> has, for the
  pairs of active streams with the left name lexically before the right one and for no
  other pair, the entry \<open>left_minus_right\<close> with the difference of their latest values,
  each key once and never the key of the reversed pair; and \<open>n_streams\<close> is the number of
  active streams.  With no active stream both maps are empty and \<open>n_streams\<close> is 0.  In
  the scenario of the specification the snapshot has the latest values 15 and 6, the one
  delta 9 under \<open>state_a_minus_state_b\<close>, and \<open>n_streams = 2\<close>.
\<close>

theorem pairwise_deltas_snapshot:
  "(cmp_reach L s \<longrightarrow>
      map (\<lambda>(k, sg). (k, latest_values (sg_value sg), pairwise_deltas (sg_value sg),
                        n_streams (sg_value sg)))
        (cmp_get_outputs (cmp_advance_to t s))
      = [(''comparison_state'',
          map (\<lambda>k. (k, snd (last (L k)))) (streams_with_data L),
          map (\<lambda>(l, r). (delta_key l r, snd (last (L l)) - snd (last (L r))))
            (ordered_pairs (streams_with_data L)),
          length (streams_with_data L))]
      \<and> (\<forall>l r. (l, r) \<in> set (ordered_pairs (streams_with_data L))
                 \<longleftrightarrow> L l \<noteq> [] \<and> L r \<noteq> [] \<and> l < r)
      \<and> distinct (map (\<lambda>(l, r). delta_key l r) (ordered_pairs (streams_with_data L)))
      \<and> (\<forall>l r. (l, r) \<in> set (ordered_pairs (streams_with_data L)) \<longrightarrow>
            delta_key r l
              \<notin> set (map (\<lambda>(l, r). delta_key l r) (ordered_pairs (streams_with_data L))))
      \<and> length (streams_with_data L) = card {n. L n \<noteq> []}
      \<and> ((\<forall>n. L n = []) \<longrightarrow>
            map (\<lambda>(k, sg). (k, latest_values (sg_value sg), pairwise_deltas (sg_value sg),
                              n_streams (sg_value sg)))
              (cmp_get_outputs (cmp_advance_to t s))
            = [(''comparison_state'', [], [], 0)]))
   \<and> map (\<lambda>(k, sg). (k, latest_values (sg_value sg), pairwise_deltas (sg_value sg),
                        n_streams (sg_value sg)))
        (cmp_get_outputs (cmp_scenario mp dt))
      = [(''comparison_state'', [(''state_a'', 15), (''state_b'', 6)],
          [(''state_a_minus_state_b'', 9)], 2)]"
proof -
  have main: "map (\<lambda>(k, sg). (k, latest_values (sg_value sg), pairwise_deltas (sg_value sg),
                        n_streams (sg_value sg)))
        (cmp_get_outputs (cmp_advance_to t s))
      = [(''comparison_state'',
          map (\<lambda>k. (k, snd (last (L k)))) (streams_with_data L),
          map (\<lambda>(l, r). (delta_key l r, snd (last (L l)) - snd (last (L r))))
            (ordered_pairs (streams_with_data L)),
          length (streams_with_data L))]
      \<and> (\<forall>l r. (l, r) \<in> set (ordered_pairs (streams_with_data L))
                 \<longleftrightarrow> L l \<noteq> [] \<and> L r \<noteq> [] \<and> l < r)
      \<and> distinct (map (\<lambda>(l, r). delta_key l r) (ordered_pairs (streams_with_data L)))
      \<and> (\<forall>l r. (l, r) \<in> set (ordered_pairs (streams_with_data L)) \<longrightarrow>
            delta_key r l
              \<notin> set (map (\<lambda>(l, r). delta_key l r) (ordered_pairs (streams_with_data L))))
      \<and> length (streams_with_data L) = card {n. L n \<noteq> []}
      \<and> ((\<forall>n. L n = []) \<longrightarrow>
            map (\<lambda>(k, sg). (k, latest_values (sg_value sg), pairwise_deltas (sg_value sg),
                              n_streams (sg_value sg)))
              (cmp_get_outputs (cmp_advance_to t s))
            = [(''comparison_state'', [], [], 0)])"
    if r: "cmp_reach L s"
  proof -
    have inv: "cmp_inv L s" using r by (rule cmp_reach_inv)
    then have lk: "log_known L" by (simp add: cmp_inv_def)
    let ?act = "streams_with_data L"
    have p: "sorted ?act" "distinct ?act" "set ?act = {n \<in> inputs. L n \<noteq> []}"
      using streams_with_data_props [of L] by simp_all
    note snap = cmp_advance_snapshot [OF inv, of t]
    have pairs: "\<forall>l r. (l, r) \<in> set (ordered_pairs ?act) \<longleftrightarrow> L l \<noteq> [] \<and> L r \<noteq> [] \<and> l < r"
      using set_ordered_pairs_sorted [OF p(1,2)] streams_with_data_set [OF lk] by simp
    have once: "distinct (map (\<lambda>(l, r). delta_key l r) (ordered_pairs ?act))"
      using p(2,3) by (intro delta_keys_distinct) auto
    have oneway: "\<forall>l r. (l, r) \<in> set (ordered_pairs ?act) \<longrightarrow>
            delta_key r l \<notin> set (map (\<lambda>(l, r). delta_key l r) (ordered_pairs ?act))"
      using never_both_directions [OF lk] by blast
    have cnt: "length ?act = card {n. L n \<noteq> []}"
      by (rule streams_with_data_card [OF lk])
    have none: "map (\<lambda>(k, sg). (k, latest_values (sg_value sg), pairwise_deltas (sg_value sg),
                              n_streams (sg_value sg)))
              (cmp_get_outputs (cmp_advance_to t s))
            = [(''comparison_state'', [], [], 0)]" if "\<forall>n. L n = []"
    proof -
      have "?act = []" using that streams_with_data_Nil [OF lk] by simp
      then show ?thesis using snap by simp
    qed
    show ?thesis
      using snap pairs once oneway cnt none by blast
  qed
  show ?thesis
    using main cmp_scenario_snapshot [of mp dt] by blast
qed

lemma cmp_scenario_log:
  "streams_with_data (cmp_log cmp_scenario_calls) = [''state_a'', ''state_b'']
   \<and> cmp_log cmp_scenario_calls ''state_a'' = [(1, 15)]
   \<and> cmp_log cmp_scenario_calls ''state_b'' = [(1, 6)]"
  by (simp add: streams_with_data_def cmp_scenario_calls_def log_defs)

theorem pairwise_deltas_snapshot_witness:
  "cmp_reach (cmp_log cmp_scenario_calls) (cmp_run cmp_scenario_calls (cmp_init 10 1))
   \<and> map (\<lambda>(k, sg). (k, latest_values (sg_value sg), pairwise_deltas (sg_value sg),
                        n_streams (sg_value sg)))
        (cmp_get_outputs (cmp_advance_to 1 (cmp_run cmp_scenario_calls (cmp_init 10 1))))
      = [(''comparison_state'', [(''state_a'', 15), (''state_b'', 6)],
          [(''state_a_minus_state_b'', 9)], 2)]
   \<and> ordered_pairs (streams_with_data (cmp_log cmp_scenario_calls)) = [(''state_a'', ''state_b'')]
   \<and> cmp_reach (cmp_log []) (cmp_run [] (cmp_init 10 1))
   \<and> map (\<lambda>(k, sg). (k, latest_values (sg_value sg), pairwise_deltas (sg_value sg),
                        n_streams (sg_value sg)))
        (cmp_get_outputs (cmp_advance_to 1 (cmp_run [] (cmp_init 10 1))))
      = [(''comparison_state'', [], [], 0)]"
proof -
  have r: "cmp_reach (cmp_log cmp_scenario_calls) (cmp_run cmp_scenario_calls (cmp_init 10 1))"
    by (rule cmp_reach_run)
  have r0: "cmp_reach (cmp_log []) (cmp_run [] (cmp_init 10 1))"
    by (rule cmp_reach_run)
  have e: "\<forall>n. cmp_log [] n = []"
    by (simp add: cmp_log_def)
  note t1 = pairwise_deltas_snapshot
    [of "cmp_log cmp_scenario_calls" "cmp_run cmp_scenario_calls (cmp_init 10 1)" 1 10 1]
  note t0 = pairwise_deltas_snapshot [of "cmp_log []" "cmp_run [] (cmp_init 10 1)" 1 10 1]
  have a: "map (\<lambda>(k, sg). (k, latest_values (sg_value sg), pairwise_deltas (sg_value sg),
                        n_streams (sg_value sg)))
        (cmp_get_outputs (cmp_advance_to 1 (cmp_run cmp_scenario_calls (cmp_init 10 1))))
      = [(''comparison_state'', [(''state_a'', 15), (''state_b'', 6)],
          [(''state_a_minus_state_b'', 9)], 2)]"
    using t1 r by (simp add: cmp_scenario_log delta_key_def)
  have b: "map (\<lambda>(k, sg). (k, latest_values (sg_value sg), pairwise_deltas (sg_value sg),
                        n_streams (sg_value sg)))
        (cmp_get_outputs (cmp_advance_to 1 (cmp_run [] (cmp_init 10 1))))
      = [(''comparison_state'', [], [], 0)]"
    using t0 r0 e by blast
  show ?thesis
    using r r0 a b by (simp add: cmp_scenario_log)
qed


section \<open>The snapshot of the metrics monitor\<close>




lemma hist_sorted_items:
  assumes "hist_inv mp L hist" and "log_known L"
  shows "sorted_items hist = map (\<lambda>n. (n, window mp (L n))) (streams_with_data L)"
proof -
  have d: "distinct (map fst hist)"
    using assms(1) by (simp add: hist_inv_def)
  have keys: "sort (map fst hist) = streams_with_data L"
    using d hist_inv_keys [OF assms(1)] assms(2) by (intro keys_sorted) simp_all
  have "map (\<lambda>k. (k, the (map_of hist k))) (streams_with_data L)
      = map (\<lambda>n. (n, window mp (L n))) (streams_with_data L)"
  proof (intro map_cong refl)
    fix n assume "n \<in> set (streams_with_data L)"
    then have "L n \<noteq> []"
      using streams_with_data_props [of L] by simp
    then have "map_of hist n = Some (window mp (L n))"
      using assms(1) by (simp add: hist_inv_def)
    then show "(n, the (map_of hist n)) = (n, window mp (L n))" by simp
  qed
  then show ?thesis
    by (simp add: sorted_items_conv [OF d] keys)
qed




lemma met_scenario_log:
  "streams_with_data (met_log met_scenario_calls) = [''state_a'', ''state_b'']
   \<and> met_log met_scenario_calls ''state_a'' = [2, 4]
   \<and> met_log met_scenario_calls ''state_b'' = [5]"
  by (simp add: streams_with_data_def met_scenario_calls_def log_defs)



section \<open>Display strings\<close>

lemmas fmt_defs =
  fmt6_def round_half_even_def pad6_def digit_char_def dec_string.simps py_str_int_def py_int_def

lemma format_6f_Finite [simp]: "format_6f (Finite x) = fmt6 x"
  by (simp add: format_6f_def)

lemma fmt6_examples:
  "fmt6 2 = ''2.000000''" "fmt6 3 = ''3.000000''" "fmt6 4 = ''4.000000''"
  "fmt6 5 = ''5.000000''" "fmt6 6 = ''6.000000''" "fmt6 15 = ''15.000000''"
  by (simp_all add: fmt_defs)

lemma count_examples:
  "py_str_int (py_int 1) = ''1''" "py_str_int (py_int 2) = ''2''"
  by (simp_all add: fmt_defs)

lemma met_scenario_state:
  "m_history (met_scenario 10 1) = [(''state_a'', [2, 4]), (''state_b'', [5])]
   \<and> met_snapshot_metrics (met_scenario 10 1)
       = [(''state_a'', \<lparr>s_count = 2, s_mean = 3, s_min = 2, s_max = 4\<rparr>),
          (''state_b'', \<lparr>s_count = 1, s_mean = 5, s_min = 5, s_max = 5\<rparr>)]"
  by (simp add: met_snapshot_metrics_def met_scenario_def met_advance_to_def Let_def
      py_dict_def sorted_items_def summary_def eval_defs)

lemma cmp_scenario_state:
  "c_series (cmp_scenario 10 1) = [(''state_a'', [(1, 15)]), (''state_b'', [(1, 6)])]
   \<and> cmp_snapshot_values (cmp_scenario 10 1) = [(''state_a'', 15), (''state_b'', 6)]"
  by (simp add: cmp_snapshot_values_def cmp_scenario_def cmp_advance_to_def Let_def
      cmp_active_def inputs_def py_dict_def delta_key_def eval_defs)

lemma met_scenario_visual:
  "met_visualize (met_scenario 10 1) =
     Some [\<lparr>render = ''timeseries'',
            data = SeriesData ''State Stream Metrics (Scalar History)''
                     [(''state_a'', [(0, 2), (1, 4)]), (''state_b'', [(0, 5)])],
            block_description = ''Scalar history per stream for quick trend checks.''\<rparr>,
           \<lparr>render = ''table'',
            data = TableData [''Stream'', ''Count'', ''Mean'', ''Min'', ''Max'']
                     [[''state_a'', ''2'', ''3.000000'', ''2.000000'', ''4.000000''],
                      [''state_b'', ''1'', ''5.000000'', ''5.000000'', ''5.000000'']],
            block_description = ''Descriptive metrics for each stream.''\<rparr>]"
  using met_scenario_state
  by (simp add: met_visualize_def met_snapshot_metrics_def [symmetric] Let_def sorted_items_def
      indexed_points_def met_row_def fmt6_examples count_examples)

lemma cmp_scenario_visual:
  "cmp_visualize (cmp_scenario 10 1) =
     Some [\<lparr>render = ''timeseries'',
            data = SeriesData ''State Stream Comparison''
                     [(''state_a'', [(1, 15)]), (''state_b'', [(1, 6)])],
            block_description = ''Scalar projections for each incoming state stream.''\<rparr>,
           \<lparr>render = ''table'',
            data = TableData [''Stream'', ''Latest Scalar'']
                     [[''state_a'', ''15.000000''], [''state_b'', ''6.000000'']],
            block_description = ''Latest scalar value per state input stream.''\<rparr>]"
  using cmp_scenario_state
  by (simp add: cmp_visualize_def cmp_snapshot_values_def [symmetric] Let_def sorted_items_def
      fmt6_examples)

lemma digit_char_is_digit: "d < 10 \<Longrightarrow> is_digit (digit_char d)"
proof -
  assume "d < 10"
  then have "d \<in> {0, 1, 2, 3, 4, 5, 6, 7, 8, 9}" by auto
  then show ?thesis
    by (auto simp: is_digit_def digit_char_def)
qed

lemma pad6_digits: "length (pad6 m) = 6 \<and> list_all is_digit (pad6 m)"
  by (simp add: pad6_def digit_char_is_digit)

lemma fmt6_has_decimals: "has_decimals 6 (fmt6 x)"
proof -
  define m where "m = nat (round_half_even (\<bar>x\<bar> * 10 ^ 6)) mod 10 ^ 6"
  define pre where "pre = (if x < 0 then ''-'' else []) @
    dec_string (nat (round_half_even (\<bar>x\<bar> * 10 ^ 6)) div 10 ^ 6)"
  have f: "fmt6 x = pre @ ''.'' @ pad6 m"
    by (simp add: fmt6_def Let_def m_def pre_def)
  have l: "length (pad6 m) = 6" and d: "list_all is_digit (pad6 m)"
    using pad6_digits [of m] by simp_all
  have len: "length (fmt6 x) = length pre + 7"
    by (simp add: f l)
  have "fmt6 x ! (length (fmt6 x) - Suc 6) = CHR ''.''"
    by (simp add: len) (simp add: f nth_append)
  moreover have "drop (length (fmt6 x) - 6) (fmt6 x) = pad6 m"
    by (simp add: len) (simp add: f)
  ultimately show ?thesis
    using d len by (simp add: has_decimals_def)
qed


text \<open>
  The format gives six decimals to every finite value and to the negative zero, and none
  to a non-finite value.
\<close>

lemma format_6f_decimals:
  "has_decimals 6 (format_6f (Finite x)) \<and> has_decimals 6 (format_6f NegZero)
   \<and> format_6f PosInf = ''inf'' \<and> format_6f NegInf = ''-inf'' \<and> format_6f NaN = ''nan''
   \<and> \<not> has_decimals 6 (format_6f PosInf) \<and> \<not> has_decimals 6 (format_6f NegInf)
   \<and> \<not> has_decimals 6 (format_6f NaN)"
  using fmt6_has_decimals [of x]
  by (simp add: format_6f_def has_decimals_def is_digit_def)

lemma dec_string_digits: "list_all is_digit (dec_string n)"
proof (induction n rule: dec_string.induct)
  case (1 n)
  show ?case
  proof (cases "n < 10")
    case True
    then show ?thesis
      by (subst dec_string.simps) (simp add: digit_char_is_digit)
  next
    case False
    then have "list_all is_digit (dec_string (n div 10))"
      by (rule "1.IH")
    then show ?thesis
      using False by (subst dec_string.simps) (simp add: digit_char_is_digit)
  qed
qed

lemma count_cell: "py_str_int (py_int (real k)) = dec_string k"
  by (simp add: py_str_int_def py_int_def)

section \<open>The blocks of \<open>visualize\<close>\<close>

lemma hist_empty_iff:
  assumes "hist_inv mp L hist" and "log_known L"
  shows "hist = [] \<longleftrightarrow> (\<forall>n. L n = [])"
proof -
  have "hist = [] \<longleftrightarrow> set (map fst hist) = {}" by simp
  also have "\<dots> \<longleftrightarrow> (\<forall>n. L n = [])"
    unfolding hist_inv_keys [OF assms(1)] by blast
  finally show ?thesis .
qed

lemma cmp_visualize_blocks:
  assumes "cmp_inv L s"
  shows "(cmp_visualize s = None \<longleftrightarrow> (\<forall>n. L n = []))
    \<and> ((\<exists>n. L n \<noteq> []) \<longrightarrow>
         cmp_visualize s =
           Some [\<lparr>render = ''timeseries'',
                  data = SeriesData ''State Stream Comparison''
                           (map (\<lambda>n. (n, window (c_max_points s) (L n))) (streams_with_data L)),
                  block_description = ''Scalar projections for each incoming state stream.''\<rparr>,
                 \<lparr>render = ''table'',
                  data = TableData [''Stream'', ''Latest Scalar'']
                           (map (\<lambda>k. [k, format_6f (Finite (the (map_of (cmp_snapshot_values s) k)))])
                              (sort (map fst (cmp_snapshot_values s)))),
                  block_description = ''Latest scalar value per state input stream.''\<rparr>])"
proof -
  have hi: "hist_inv (c_max_points s) L (c_series s)" and lk: "log_known L"
    using assms by (simp_all add: cmp_inv_def)
  note e = hist_empty_iff [OF hi lk]
  have n: "cmp_visualize s = None \<longleftrightarrow> (\<forall>n. L n = [])"
    using e by (simp add: cmp_visualize_def Let_def)
  have "c_series s \<noteq> []" if "\<exists>n. L n \<noteq> []"
    using that e by simp
  then show ?thesis
    using n
    by (simp add: cmp_visualize_def Let_def hist_sorted_items [OF hi lk]
        cmp_snapshot_values_def [symmetric])
qed

lemma met_visualize_blocks:
  assumes "met_inv L u"
  shows "(met_visualize u = None \<longleftrightarrow> (\<forall>n. L n = []))
    \<and> ((\<exists>n. L n \<noteq> []) \<longrightarrow>
         met_visualize u =
           Some [\<lparr>render = ''timeseries'',
                  data = SeriesData ''State Stream Metrics (Scalar History)''
                           (map (\<lambda>n. (n, indexed_points (window (m_max_points u) (L n))))
                              (streams_with_data L)),
                  block_description = ''Scalar history per stream for quick trend checks.''\<rparr>,
                 \<lparr>render = ''table'',
                  data = TableData [''Stream'', ''Count'', ''Mean'', ''Min'', ''Max'']
                           (map (\<lambda>k. [k,
                                        py_str_int (py_int (s_count (the (map_of (met_snapshot_metrics u) k)))),
                                        format_6f (Finite (s_mean (the (map_of (met_snapshot_metrics u) k)))),
                                        format_6f (Finite (s_min (the (map_of (met_snapshot_metrics u) k)))),
                                        format_6f (Finite (s_max (the (map_of (met_snapshot_metrics u) k))))])
                              (sort (map fst (met_snapshot_metrics u)))),
                  block_description = ''Descriptive metrics for each stream.''\<rparr>])"
proof -
  have hi: "hist_inv (m_max_points u) L (m_history u)" and lk: "log_known L"
    using assms by (simp_all add: met_inv_def)
  note e = hist_empty_iff [OF hi lk]
  have n: "met_visualize u = None \<longleftrightarrow> (\<forall>n. L n = [])"
    using e by (simp add: met_visualize_def Let_def)
  have "m_history u \<noteq> []" if "\<exists>n. L n \<noteq> []"
    using that e by simp
  then show ?thesis
    using n
    by (simp add: met_visualize_def Let_def hist_sorted_items [OF hi lk] comp_def
        met_snapshot_metrics_def [symmetric] met_row_def)
qed

text \<open>
  Claim C7, as the specification states it, fails on the metrics monitor: the table has
  a numeric cell that is not formatted to six decimals.  The count is written with
  \<open>str(int(count))\<close>; in the scenario of the specification the count cells are \<open>2\<close> and
  \<open>1\<close>, where six decimals would give \<open>2.000000\<close>.  Nor does the format itself give six
  decimals to every float: a non-finite value is written \<open>inf\<close> or \<open>nan\<close>.
\<close>

theorem visualize_count_cell_counterexample:
  "met_visualize (met_scenario 10 1) =
     Some [\<lparr>render = ''timeseries'',
            data = SeriesData ''State Stream Metrics (Scalar History)''
                     [(''state_a'', [(0, 2), (1, 4)]), (''state_b'', [(0, 5)])],
            block_description = ''Scalar history per stream for quick trend checks.''\<rparr>,
           \<lparr>render = ''table'',
            data = TableData [''Stream'', ''Count'', ''Mean'', ''Min'', ''Max'']
                     [[''state_a'', ''2'', ''3.000000'', ''2.000000'', ''4.000000''],
                      [''state_b'', ''1'', ''5.000000'', ''5.000000'', ''5.000000'']],
            block_description = ''Descriptive metrics for each stream.''\<rparr>]
   \<and> \<not> has_decimals 6 ''2'' \<and> \<not> has_decimals 6 ''1''
   \<and> format_6f (Finite 2) = ''2.000000'' \<and> format_6f (Finite 1) = ''1.000000''
   \<and> format_6f PosInf = ''inf'' \<and> \<not> has_decimals 6 ''inf''
   \<and> format_6f NaN = ''nan'' \<and> \<not> has_decimals 6 ''nan''"
  using met_scenario_visual
  by (simp add: has_decimals_def fmt_defs format_6f_def)

text \<open>
  Claim C7, amended: in every reachable state of either monitor, \<open>visualize()\<close> returns
  nothing exactly when no stream received data since the construction or the last reset.
  Otherwise it returns two blocks: first the block tagged \<open>timeseries\<close>, with one series
  per stream with data, in lexical order, holding the retained history of the stream;
  then the block tagged \<open>table\<close>, with one row per key of the aggregate of the current
  snapshot, in sorted order (no row while no snapshot is stored).  The cells for the
  latest scalar, the mean, the minimum and the maximum are written with the format
  \<open>.6f\<close>, which gives six decimals for every finite value (and \<open>inf\<close>, \<open>-inf\<close> or \<open>nan\<close>
  for a value that is not finite); the count cell of the metrics table is the count as an
  integer numeral, without decimals.
\<close>

theorem visualize_blocks:
  "(cmp_reach L s \<longrightarrow>
      (cmp_visualize s = None \<longleftrightarrow> (\<forall>n. L n = []))
      \<and> ((\<exists>n. L n \<noteq> []) \<longrightarrow>
           cmp_visualize s =
             Some [\<lparr>render = ''timeseries'',
                    data = SeriesData ''State Stream Comparison''
                             (map (\<lambda>n. (n, window (c_max_points s) (L n))) (streams_with_data L)),
                    block_description = ''Scalar projections for each incoming state stream.''\<rparr>,
                   \<lparr>render = ''table'',
                    data = TableData [''Stream'', ''Latest Scalar'']
                             (map (\<lambda>k. [k, format_6f (Finite (the (map_of (cmp_snapshot_values s) k)))])
                                (sort (map fst (cmp_snapshot_values s)))),
                    block_description = ''Latest scalar value per state input stream.''\<rparr>])
      \<and> (c_outputs s = [] \<longrightarrow> cmp_snapshot_values s = [])
      \<and> (\<forall>n. n \<in> set (streams_with_data L) \<longleftrightarrow> L n \<noteq> []))
   \<and> (met_reach M u \<longrightarrow>
      (met_visualize u = None \<longleftrightarrow> (\<forall>n. M n = []))
      \<and> ((\<exists>n. M n \<noteq> []) \<longrightarrow>
           met_visualize u =
             Some [\<lparr>render = ''timeseries'',
                    data = SeriesData ''State Stream Metrics (Scalar History)''
                             (map (\<lambda>n. (n, indexed_points (window (m_max_points u) (M n))))
                                (streams_with_data M)),
                    block_description = ''Scalar history per stream for quick trend checks.''\<rparr>,
                   \<lparr>render = ''table'',
                    data = TableData [''Stream'', ''Count'', ''Mean'', ''Min'', ''Max'']
                             (map (\<lambda>k. [k,
                                          py_str_int (py_int (s_count (the (map_of (met_snapshot_metrics u) k)))),
                                          format_6f (Finite (s_mean (the (map_of (met_snapshot_metrics u) k)))),
                                          format_6f (Finite (s_min (the (map_of (met_snapshot_metrics u) k)))),
                                          format_6f (Finite (s_max (the (map_of (met_snapshot_metrics u) k))))])
                                (sort (map fst (met_snapshot_metrics u)))),
                    block_description = ''Descriptive metrics for each stream.''\<rparr>])
      \<and> (m_outputs u = [] \<longrightarrow> met_snapshot_metrics u = [])
      \<and> (\<forall>n. n \<in> set (streams_with_data M) \<longleftrightarrow> M n \<noteq> []))
   \<and> has_decimals 6 (format_6f (Finite x)) \<and> has_decimals 6 (format_6f NegZero)
   \<and> format_6f PosInf = ''inf'' \<and> format_6f NegInf = ''-inf'' \<and> format_6f NaN = ''nan''
   \<and> \<not> has_decimals 6 (format_6f PosInf) \<and> \<not> has_decimals 6 (format_6f NegInf)
   \<and> \<not> has_decimals 6 (format_6f NaN)
   \<and> py_str_int (py_int (real k)) = dec_string k
   \<and> list_all is_digit (dec_string k)"
proof -
  have c: "(cmp_visualize s = None \<longleftrightarrow> (\<forall>n. L n = []))
      \<and> ((\<exists>n. L n \<noteq> []) \<longrightarrow>
           cmp_visualize s =
             Some [\<lparr>render = ''timeseries'',
                    data = SeriesData ''State Stream Comparison''
                             (map (\<lambda>n. (n, window (c_max_points s) (L n))) (streams_with_data L)),
                    block_description = ''Scalar projections for each incoming state stream.''\<rparr>,
                   \<lparr>render = ''table'',
                    data = TableData [''Stream'', ''Latest Scalar'']
                             (map (\<lambda>k. [k, format_6f (Finite (the (map_of (cmp_snapshot_values s) k)))])
                                (sort (map fst (cmp_snapshot_values s)))),
                    block_description = ''Latest scalar value per state input stream.''\<rparr>])
      \<and> (c_outputs s = [] \<longrightarrow> cmp_snapshot_values s = [])
      \<and> (\<forall>n. n \<in> set (streams_with_data L) \<longleftrightarrow> L n \<noteq> [])"
    if "cmp_reach L s"
  proof -
    have inv: "cmp_inv L s" using that by (rule cmp_reach_inv)
    then have lk: "log_known L" by (simp add: cmp_inv_def)
    have "c_outputs s = [] \<longrightarrow> cmp_snapshot_values s = []"
      by (simp add: cmp_snapshot_values_def)
    moreover have "\<forall>n. n \<in> set (streams_with_data L) \<longleftrightarrow> L n \<noteq> []"
      using streams_with_data_set [OF lk] by simp
    ultimately show ?thesis
      using cmp_visualize_blocks [OF inv] by blast
  qed
  have m: "(met_visualize u = None \<longleftrightarrow> (\<forall>n. M n = []))
      \<and> ((\<exists>n. M n \<noteq> []) \<longrightarrow>
           met_visualize u =
             Some [\<lparr>render = ''timeseries'',
                    data = SeriesData ''State Stream Metrics (Scalar History)''
                             (map (\<lambda>n. (n, indexed_points (window (m_max_points u) (M n))))
                                (streams_with_data M)),
                    block_description = ''Scalar history per stream for quick trend checks.''\<rparr>,
                   \<lparr>render = ''table'',
                    data = TableData [''Stream'', ''Count'', ''Mean'', ''Min'', ''Max'']
                             (map (\<lambda>k. [k,
                                          py_str_int (py_int (s_count (the (map_of (met_snapshot_metrics u) k)))),
                                          format_6f (Finite (s_mean (the (map_of (met_snapshot_metrics u) k)))),
                                          format_6f (Finite (s_min (the (map_of (met_snapshot_metrics u) k)))),
                                          format_6f (Finite (s_max (the (map_of (met_snapshot_metrics u) k))))])
                                (sort (map fst (met_snapshot_metrics u)))),
                    block_description = ''Descriptive metrics for each stream.''\<rparr>])
      \<and> (m_outputs u = [] \<longrightarrow> met_snapshot_metrics u = [])
      \<and> (\<forall>n. n \<in> set (streams_with_data M) \<longleftrightarrow> M n \<noteq> [])"
    if "met_reach M u"
  proof -
    have inv: "met_inv M u" using that by (rule met_reach_inv)
    then have lk: "log_known M" by (simp add: met_inv_def)
    have "m_outputs u = [] \<longrightarrow> met_snapshot_metrics u = []"
      by (simp add: met_snapshot_metrics_def)
    moreover have "\<forall>n. n \<in> set (streams_with_data M) \<longleftrightarrow> M n \<noteq> []"
      using streams_with_data_set [OF lk] by simp
    ultimately show ?thesis
      using met_visualize_blocks [OF inv] by blast
  qed
  show ?thesis
    using c m format_6f_decimals [of x] count_cell [of k] dec_string_digits [of k] by blast
qed

theorem visualize_blocks_witness:
  "cmp_reach (cmp_log cmp_scenario_calls) (cmp_scenario 10 1)
   \<and> cmp_log cmp_scenario_calls ''state_a'' \<noteq> []
   \<and> cmp_visualize (cmp_scenario 10 1) =
       Some [\<lparr>render = ''timeseries'',
              data = SeriesData ''State Stream Comparison''
                       [(''state_a'', [(1, 15)]), (''state_b'', [(1, 6)])],
              block_description = ''Scalar projections for each incoming state stream.''\<rparr>,
             \<lparr>render = ''table'',
              data = TableData [''Stream'', ''Latest Scalar'']
                       [[''state_a'', ''15.000000''], [''state_b'', ''6.000000'']],
              block_description = ''Latest scalar value per state input stream.''\<rparr>]
   \<and> met_reach (met_log met_scenario_calls) (met_scenario 10 1)
   \<and> met_log met_scenario_calls ''state_a'' \<noteq> []
   \<and> met_visualize (met_scenario 10 1) \<noteq> None
   \<and> cmp_reach (cmp_log []) (cmp_init 10 1)
   \<and> cmp_visualize (cmp_init 10 1) = None
   \<and> met_reach (met_log []) (met_init 10 1)
   \<and> met_visualize (met_init 10 1) = None"
proof -
  have rc: "cmp_reach (cmp_log cmp_scenario_calls) (cmp_scenario 10 1)"
    unfolding cmp_scenario_def by (rule cmp_reach_advance [OF cmp_reach_run])
  have rm: "met_reach (met_log met_scenario_calls) (met_scenario 10 1)"
    unfolding met_scenario_def by (rule met_reach_advance [OF met_reach_run])
  have rc0: "cmp_reach (cmp_log []) (cmp_init 10 1)"
    using cmp_reach_run [of "[]" 10 1] by (simp add: cmp_run_def)
  have rm0: "met_reach (met_log []) (met_init 10 1)"
    using met_reach_run [of "[]" 10 1] by (simp add: met_run_def)
  have nc: "cmp_log cmp_scenario_calls ''state_a'' \<noteq> []"
    by (simp add: cmp_scenario_log)
  have nm: "met_log met_scenario_calls ''state_a'' \<noteq> []"
    by (simp add: met_scenario_log)
  have e: "\<forall>n. cmp_log [] n = []" "\<forall>n. met_log [] n = []"
    by (simp_all add: cmp_log_def met_log_def)
  note t = visualize_blocks
    [of "cmp_log cmp_scenario_calls" "cmp_scenario 10 1"
        "met_log met_scenario_calls" "met_scenario 10 1" 0 0]
  note t0 = visualize_blocks [of "cmp_log []" "cmp_init 10 1" "met_log []" "met_init 10 1" 0 0]
  have vm: "met_visualize (met_scenario 10 1) \<noteq> None"
    using t rm nm by blast
  have vc0: "cmp_visualize (cmp_init 10 1) = None" and vm0: "met_visualize (met_init 10 1) = None"
    using t0 rc0 rm0 e by blast+
  have vc: "cmp_visualize (cmp_scenario 10 1) =
       Some [\<lparr>render = ''timeseries'',
              data = SeriesData ''State Stream Comparison''
                       (map (\<lambda>n. (n, window (c_max_points (cmp_scenario 10 1))
                                       (cmp_log cmp_scenario_calls n)))
                          (streams_with_data (cmp_log cmp_scenario_calls))),
              block_description = ''Scalar projections for each incoming state stream.''\<rparr>,
             \<lparr>render = ''table'',
              data = TableData [''Stream'', ''Latest Scalar'']
                       (map (\<lambda>k. [k, format_6f (Finite (the (map_of (cmp_snapshot_values (cmp_scenario 10 1)) k)))])
                          (sort (map fst (cmp_snapshot_values (cmp_scenario 10 1))))),
              block_description = ''Latest scalar value per state input stream.''\<rparr>]"
    using t rc nc by blast
  have mp: "c_max_points (cmp_scenario 10 1) = 10"
    by (simp add: cmp_scenario_def cmp_advance_to_def Let_def eval_defs)
  have vc': "cmp_visualize (cmp_scenario 10 1) =
       Some [\<lparr>render = ''timeseries'',
              data = SeriesData ''State Stream Comparison''
                       [(''state_a'', [(1, 15)]), (''state_b'', [(1, 6)])],
              block_description = ''Scalar projections for each incoming state stream.''\<rparr>,
             \<lparr>render = ''table'',
              data = TableData [''Stream'', ''Latest Scalar'']
                       [[''state_a'', ''15.000000''], [''state_b'', ''6.000000'']],
              block_description = ''Latest scalar value per state input stream.''\<rparr>]"
    unfolding vc by (simp add: mp cmp_scenario_log cmp_scenario_state window_def fmt6_examples)
  show ?thesis
    using rc nc vc' rm nm vm rc0 vc0 rm0 vm0 by blast
qed


section \<open>The log of a call that completes\<close>

text \<open>
  When no projection raises, a call delivers one observation to every known stream that
  has a signal, and nothing to the others.
\<close>

lemma arrival_log_complete:
  assumes "\<And>n sg. n \<in> set names \<Longrightarrow> signals n = Some sg \<Longrightarrow> obs sg = Inr (val sg)"
    and "distinct names"
  shows "arrival_log obs names signals L n
    = L n @ (if n \<in> set names then (case signals n of None \<Rightarrow> [] | Some sg \<Rightarrow> [val sg]) else [])"
  using assms
proof (induction names arbitrary: L)
  case Nil
  show ?case by simp
next
  case (Cons a names)
  have ih: "arrival_log obs names signals L' n
      = L' n @ (if n \<in> set names then (case signals n of None \<Rightarrow> [] | Some sg \<Rightarrow> [val sg]) else [])"
    for L'
  proof (rule Cons.IH)
    show "obs sg = Inr (val sg)" if "k \<in> set names" and "signals k = Some sg" for k sg
      using that Cons.prems(1) [of k sg] by simp
    show "distinct names"
      using Cons.prems(2) by simp
  qed
  show ?case
  proof (cases "signals a")
    case None
    then show ?thesis by (simp add: ih)
  next
    case (Some sg)
    have "obs sg = Inr (val sg)"
      by (rule Cons.prems(1) [of a sg]) (simp_all add: Some)
    then show ?thesis
      using Some Cons.prems(2) by (auto simp: ih)
  qed
qed

text \<open>
  An exception of the projection leaves \<open>set_inputs\<close> through the loop: the streams before
  the failing one are ingested, the failing one and those after it are not.
\<close>

lemma set_inputs_overflow:
  "cmp_set_inputs
     [''state_a'' \<mapsto> sig ''a'' ''state_a'' (PFloat 1) 1,
      ''state_b'' \<mapsto> sig ''b'' ''state_b'' (PInt (2 ^ 1024)) 2,
      ''state_c'' \<mapsto> sig ''c'' ''state_c'' (PFloat 3) 3]
     (cmp_init 10 1)
   = (Some OverflowError,
      (cmp_init 10 1)
        \<lparr>c_latest := [(''state_a'', \<lparr>le_t = 1, le_scalar = 1, le_source = ''a''\<rparr>)],
         c_series := [(''state_a'', [(1, 1)])],
         c_last_t := 1\<rparr>)"
  by (simp add: eval_defs in_double_range_def)

end
